theory Spec2Isabelle
  imports Main "HOL-Library.Sublist"
begin

section \<open>Strings\<close>

text \<open>
  The script (\<^verbatim>\<open>3euro.py\<close>) handles URLs, attribute values and element texts as Python
  \<^verbatim>\<open>str\<close>. They are modelled as \<^typ>\<open>string\<close>; the character classes below are
  Python's on ASCII text (\<^verbatim>\<open>\d\<close> is \<^verbatim>\<open>[0-9]\<close> there, and \<^verbatim>\<open>str.isspace\<close> holds for
  the codes 9 to 13 and 28 to 32).
\<close>

definition isdigit :: "char \<Rightarrow> bool" where
  "isdigit c = (c \<in> set ''0123456789'')"

definition isspace :: "char \<Rightarrow> bool" where
  "isspace c =
     (c \<in> set [CHR 0x09, CHR 0x0A, CHR 0x0B, CHR 0x0C, CHR 0x0D,
                CHR 0x1C, CHR 0x1D, CHR 0x1E, CHR 0x1F, CHR 0x20])"

text \<open>\<^verbatim>\<open>s.strip()\<close>: leading and trailing whitespace removed.\<close>

definition strip :: "string \<Rightarrow> string" where
  "strip s = rev (dropWhile isspace (rev (dropWhile isspace s)))"

text \<open>\<^verbatim>\<open>sep.join(xs)\<close>.\<close>

fun join :: "string \<Rightarrow> string list \<Rightarrow> string" where
  "join sep [] = []"
| "join sep [x] = x"
| "join sep (x # y # ys) = x @ sep @ join sep (y # ys)"

text \<open>\<^verbatim>\<open>s.split(c)\<close> for a one-character separator: never the empty list.\<close>

fun split :: "char \<Rightarrow> string \<Rightarrow> string list" where
  "split sep [] = [[]]"
| "split sep (c # cs) =
     (if c = sep then [] # split sep cs
      else (case split sep cs of [] \<Rightarrow> [[c]] | h # t \<Rightarrow> (c # h) # t))"

text \<open>\<^verbatim>\<open>pattern in s\<close>: \<open>pattern\<close> occurs in \<open>s\<close> as a contiguous substring.\<close>

fun contains :: "string \<Rightarrow> string \<Rightarrow> bool" where
  "contains pattern [] = (pattern = [])"
| "contains pattern (c # cs) = (prefix pattern (c # cs) \<or> contains pattern cs)"

text \<open>
  \<^verbatim>\<open>s.split(c, 1)\<close> guarded by \<^verbatim>\<open>c in s\<close>, as \<^verbatim>\<open>urlsplit\<close> uses it: the text before
  the first \<open>c\<close> and the text after it (empty when \<open>c\<close> does not occur).
\<close>

definition split_once :: "char \<Rightarrow> string \<Rightarrow> string \<times> string" where
  "split_once c s = (takeWhile (\<lambda>x. x \<noteq> c) s, drop 1 (dropWhile (\<lambda>x. x \<noteq> c) s))"

subsection \<open>The article pattern\<close>

text \<open>
  The regular expression \<^verbatim>\<open>r'/\d{4}/\d{2}/\d{2}/'\<close> is a fixed sequence of twelve
  one-character items; \<^verbatim>\<open>re.search\<close> succeeds when the sequence matches at some
  position of the string.
\<close>

datatype item = Lit char | Digit

fun item_matches :: "item \<Rightarrow> char \<Rightarrow> bool" where
  "item_matches (Lit l) c = (c = l)"
| "item_matches Digit c = isdigit c"

fun match_here :: "item list \<Rightarrow> string \<Rightarrow> bool" where
  "match_here [] s = True"
| "match_here (i # is) [] = False"
| "match_here (i # is) (c # cs) = (item_matches i c \<and> match_here is cs)"

fun re_search :: "item list \<Rightarrow> string \<Rightarrow> bool" where
  "re_search p [] = match_here p []"
| "re_search p (c # cs) = (match_here p (c # cs) \<or> re_search p cs)"

definition article_pattern :: "item list" where
  "article_pattern =
     [Lit CHR ''/'', Digit, Digit, Digit, Digit,
      Lit CHR ''/'', Digit, Digit,
      Lit CHR ''/'', Digit, Digit, Lit CHR ''/'']"

definition excluded_patterns :: "string list" where
  "excluded_patterns =
     [''/tag/'', ''/my-europe/'', ''/video/'', ''/culture/'', ''/green/'',
      ''/programs/'', ''/live'', ''/widgets'', ''/business/markets'']"

section \<open>Exceptions\<close>

text \<open>
  The exceptions the two loops of the script distinguish in their \<^verbatim>\<open>except\<close> clauses.
  \<open>HTTPError\<close> is what \<^verbatim>\<open>raise_for_status\<close> raises (a \<^verbatim>\<open>RequestException\<close>),
  \<open>ValueError\<close> what \<^verbatim>\<open>urljoin\<close> raises, \<open>OtherException\<close> anything else caught by
  \<^verbatim>\<open>except Exception\<close>.
\<close>

datatype exn =
    TimeoutException | NoSuchElementException | WebDriverException
  | Timeout | RequestException | HTTPError
  | AttributeError | TypeError | ValueError | OtherException

datatype flow = Continue | Break

section \<open>Joining an href to the base URL\<close>


text \<open>The components of \<^verbatim>\<open>urlparse(base_url)\<close>; parameters, query and fragment are empty.\<close>

definition bscheme :: string where
  "bscheme = ''https''"

definition bnetloc :: string where
  "bnetloc = ''www.euronews.com''"

definition bpath :: string where
  "bpath = ''/''"

definition remove_unsafe :: "string \<Rightarrow> string" where
  "remove_unsafe url = filter (\<lambda>c. c \<notin> set [CHR 0x09, CHR 0x0D, CHR 0x0A]) url"

definition splitnetloc :: "string \<Rightarrow> string \<times> string" where
  "splitnetloc url =
     (if take 2 url = ''//''
      then (takeWhile (\<lambda>c. c \<notin> set ''/?#'') (drop 2 url),
            dropWhile (\<lambda>c. c \<notin> set ''/?#'') (drop 2 url))
      else ([], url))"

definition invalid_brackets :: "string \<Rightarrow> bool" where
  "invalid_brackets netloc =
     ((CHR ''['' \<in> set netloc \<and> CHR '']'' \<notin> set netloc) \<or>
      (CHR '']'' \<in> set netloc \<and> CHR ''['' \<notin> set netloc))"

text \<open>
  \<^verbatim>\<open>_splitparams\<close>: the parameters start at the first \<^verbatim>\<open>;\<close> of the last path segment.
\<close>

definition splitparams :: "string \<Rightarrow> string \<times> string" where
  "splitparams url =
     (let last_segment = rev (takeWhile (\<lambda>c. c \<noteq> CHR ''/'') (rev url));
          directory = take (length url - length last_segment) url
      in if CHR '';'' \<in> set last_segment
         then (directory @ fst (split_once CHR '';'' last_segment),
               snd (split_once CHR '';'' last_segment))
         else (url, []))"

record parse_result =
  netloc :: string
  path :: string
  params :: string
  query :: string
  fragment :: string

definition urlparse :: "string \<Rightarrow> exn + parse_result" where
  "urlparse url0 =
     (let url = remove_unsafe url0;
          (nl, url1) = splitnetloc url
      in if invalid_brackets nl then Inl ValueError
         else
           let (url2, frag) = (if CHR ''#'' \<in> set url1 then split_once CHR ''#'' url1 else (url1, []));
               (url3, qry) = (if CHR ''?'' \<in> set url2 then split_once CHR ''?'' url2 else (url2, []));
               (pth, prm) = (if CHR '';'' \<in> set url3 then splitparams url3 else (url3, []))
           in Inr \<lparr>netloc = nl, path = pth, params = prm, query = qry, fragment = frag\<rparr>)"

text \<open>\<^verbatim>\<open>urlunparse\<close> of a result whose scheme is \<open>bscheme\<close> and whose network location is not empty.\<close>

definition urlunparse :: "parse_result \<Rightarrow> string" where
  "urlunparse r =
     (let url = (if params r \<noteq> [] then path r @ '';'' @ params r else path r);
          url = (if url \<noteq> [] \<and> take 1 url \<noteq> ''/'' then ''/'' @ url else url);
          url = ''//'' @ netloc r @ url;
          url = bscheme @ '':'' @ url;
          url = (if query r \<noteq> [] then url @ ''?'' @ query r else url);
          url = (if fragment r \<noteq> [] then url @ ''#'' @ fragment r else url)
      in url)"

fun resolve_segments :: "string list \<Rightarrow> string list \<Rightarrow> string list" where
  "resolve_segments [] resolved_path = resolved_path"
| "resolve_segments (seg # segs) resolved_path =
     (if seg = ''..'' then resolve_segments segs (butlast resolved_path)
      else if seg = ''.'' then resolve_segments segs resolved_path
      else resolve_segments segs (resolved_path @ [seg]))"

definition urljoin :: "string \<Rightarrow> exn + string" where
  "urljoin url =
     (case urlparse url of
        Inl e \<Rightarrow> Inl e
      | Inr r \<Rightarrow>
          if netloc r \<noteq> [] then Inr (urlunparse r)
          else if path r = [] \<and> params r = []
          then Inr (urlunparse (r\<lparr>netloc := bnetloc, path := bpath\<rparr>))
          else
            let segments = split CHR ''/'' (path r);
                resolved_path = resolve_segments segments [];
                resolved_path =
                  (if last segments = ''.'' \<or> last segments = ''..''
                   then resolved_path @ [[]] else resolved_path);
                joined = join ''/'' resolved_path
            in Inr (urlunparse
                 (r\<lparr>netloc := bnetloc, path := (if joined = [] then ''/'' else joined)\<rparr>)))"

section \<open>The parsed document\<close>

text \<open>
  A page as \<^verbatim>\<open>BeautifulSoup(..., 'html.parser')\<close> hands it to the script: a forest of
  nodes, each a text node or a tag with its name, its \<^verbatim>\<open>class\<close> attribute (which the
  parser keeps as the list of its whitespace-separated values, \<open>None\<close> when the tag has
  none), its other attributes (plain strings) and its children.
\<close>

datatype node =
    NavigableString string
  | Tag (tag_name: string) (tag_class: "string list option")
        (tag_attrs: "(string \<times> string) list") (tag_contents: "node list")
where
  "tag_name (NavigableString s) = []"
| "tag_class (NavigableString s) = None"
| "tag_attrs (NavigableString s) = []"
| "tag_contents (NavigableString s) = []"

type_synonym soup = "node list"

text \<open>The tags below a list of nodes, in document order (what a search iterates over).\<close>

fun self_and_descendants :: "node \<Rightarrow> node list" where
  "self_and_descendants (NavigableString s) = []"
| "self_and_descendants (Tag n c a kids) =
     Tag n c a kids # concat (map self_and_descendants kids)"

definition descendants :: "node list \<Rightarrow> node list" where
  "descendants nodes = concat (map self_and_descendants nodes)"

text \<open>
  \<^verbatim>\<open>x.find_all(...)\<close> returns the matching tags below \<open>x\<close> in document order,
  \<^verbatim>\<open>x.find(...)\<close> the first of them or \<^verbatim>\<open>None\<close>. The first argument is the content of
  \<open>x\<close>: the whole document for the soup, \<open>tag_contents t\<close> for a tag \<open>t\<close>.
\<close>

definition find_all :: "(node \<Rightarrow> bool) \<Rightarrow> node list \<Rightarrow> node list" where
  "find_all matches nodes = filter matches (descendants nodes)"

definition find_tag :: "(node \<Rightarrow> bool) \<Rightarrow> node list \<Rightarrow> node option" where
  "find_tag matches nodes = (case find_all matches nodes of [] \<Rightarrow> None | t # _ \<Rightarrow> Some t)"

text \<open>
  A \<^verbatim>\<open>class_\<close> filter is tried on every value of the class list and then on the values
  joined by a space; a tag without a class attribute matches neither a string nor the
  script's \<^verbatim>\<open>lambda x: x and ...\<close>.
\<close>

definition class_matches :: "(string \<Rightarrow> bool) \<Rightarrow> node \<Rightarrow> bool" where
  "class_matches f t =
     (case tag_class t of
        None \<Rightarrow> False
      | Some values \<Rightarrow> list_ex f values \<or> f (join '' '' values))"

definition has_class :: "string \<Rightarrow> node \<Rightarrow> bool" where
  "has_class c t = class_matches (\<lambda>x. x = c) t"

text \<open>\<^verbatim>\<open>t.get(key)\<close>, and \<^verbatim>\<open>key in t.attrs\<close> when the result is not \<open>None\<close>.\<close>

definition get :: "node \<Rightarrow> string \<Rightarrow> string option" where
  "get t key = map_of (tag_attrs t) key"

text \<open>
  \<^verbatim>\<open>t.get_text(strip=True)\<close>: the text nodes below \<open>t\<close> in document order, each
  stripped, the empty ones dropped, concatenated. Comments and the other special strings
  that \<^verbatim>\<open>get_text\<close> skips are not nodes of the model.
\<close>

fun all_strings :: "node \<Rightarrow> string list" where
  "all_strings (NavigableString s) = [s]"
| "all_strings (Tag n c a kids) = concat (map all_strings kids)"

definition get_text :: "node \<Rightarrow> string" where
  "get_text t = concat (filter (\<lambda>s. s \<noteq> []) (map strip (all_strings t)))"

text \<open>
  \<^verbatim>\<open>soup.select('div.c-article-content > p')\<close>: the \<open>p\<close> tags whose parent is a
  \<open>div\<close> with the class \<open>c-article-content\<close> among its class values, in document order.
  The flag says whether the parent of the node is such a \<open>div\<close>.
\<close>

definition is_content_div :: "string \<Rightarrow> string list option \<Rightarrow> bool" where
  "is_content_div n c =
     (n = ''div'' \<and> (case c of None \<Rightarrow> False | Some values \<Rightarrow> ''c-article-content'' \<in> set values))"

fun select_below :: "bool \<Rightarrow> node \<Rightarrow> node list" where
  "select_below parent_matches (NavigableString s) = []"
| "select_below parent_matches (Tag n c a kids) =
     (if parent_matches \<and> n = ''p'' then [Tag n c a kids] else []) @
     concat (map (select_below (is_content_div n c)) kids)"

definition select_content_paragraphs :: "soup \<Rightarrow> node list" where
  "select_content_paragraphs article_soup = concat (map (select_below False) article_soup)"

section \<open>Link collection\<close>

text \<open>
  What the run does to the outside world, in order: \<open>DriverGet n\<close> is
  \<^verbatim>\<open>driver.get\<close> of listing page \<open>n\<close> (the base URL for page 0, the base URL with
  \<^verbatim>\<open>?page=n\<close> otherwise), \<open>RequestsGet u\<close> is \<^verbatim>\<open>requests.get(u)\<close>, \<open>Sleep s\<close> is
  \<^verbatim>\<open>time.sleep(s)\<close>.
\<close>

datatype event = DriverGet nat | RequestsGet string | Sleep nat

text \<open>
  Loading a listing page either raises (from \<^verbatim>\<open>driver.get\<close> or the wait for the body)
  or yields the parsed page source.
\<close>

datatype page_load = PageRaises exn | PageSource soup

record collector_state =
  all_article_links :: "string set"
  events :: "event list"

definition max_pages_to_scrape :: nat where
  "max_pages_to_scrape = 5"

definition request_delay :: nat where
  "request_delay = 5"

text \<open>
  The class filter of the container search:
  \<^verbatim>\<open>lambda x: x and ('article' in x or 'media' in x or 'headline' in x or 'c-article-tile' in x)\<close>.
\<close>

definition container_class :: "string \<Rightarrow> bool" where
  "container_class x =
     (x \<noteq> [] \<and> (contains ''article'' x \<or> contains ''media'' x \<or> contains ''headline'' x
        \<or> contains ''c-article-tile'' x))"

definition is_article_container :: "node \<Rightarrow> bool" where
  "is_article_container t =
     (tag_name t \<in> set [''article'', ''div'', ''section''] \<and> class_matches container_class t)"

text \<open>\<^verbatim>\<open>container.find_all('a', href=True)\<close>.\<close>

definition is_link_element :: "node \<Rightarrow> bool" where
  "is_link_element t = (tag_name t = ''a'' \<and> get t ''href'' \<noteq> None)"

text \<open>The hrefs the two nested \<^verbatim>\<open>for\<close> loops visit, in order.\<close>

definition page_hrefs :: "node list \<Rightarrow> string option list" where
  "page_hrefs article_containers =
     concat (map (\<lambda>container.
        map (\<lambda>link_element. get link_element ''href'')
          (find_all is_link_element (tag_contents container))) article_containers)"

text \<open>The test on the joined URL (line 74 of the script).\<close>

definition qualifies :: "string \<Rightarrow> bool" where
  "qualifies full_url =
     (\<not> list_ex (\<lambda>pattern. contains pattern full_url) excluded_patterns
      \<and> re_search article_pattern full_url)"

text \<open>
  The body of the inner loop for one href, on the link set and the page's counter. An
  exception of \<^verbatim>\<open>urljoin\<close> leaves both as they were.
\<close>

fun scan_link :: "string option \<Rightarrow> string set \<times> nat \<Rightarrow> exn + string set \<times> nat" where
  "scan_link None (links, page_links_found) = Inr (links, page_links_found)"
| "scan_link (Some href) (links, page_links_found) =
     (if href \<noteq> [] \<and> prefix ''/'' href \<and> length href > 1
      then (case urljoin href of
              Inl e \<Rightarrow> Inl e
            | Inr full_url \<Rightarrow>
                if qualifies full_url
                then Inr (insert full_url links, page_links_found + 1)
                else Inr (links, page_links_found))
      else Inr (links, page_links_found))"

text \<open>
  The loops over one page: the state when they end, and the exception that ended them
  early, if any.
\<close>

fun scan_links :: "string option list \<Rightarrow> string set \<times> nat \<Rightarrow> (string set \<times> nat) \<times> exn option" where
  "scan_links [] st = (st, None)"
| "scan_links (href # hrefs) st =
     (case scan_link href st of
        Inl e \<Rightarrow> (st, Some e)
      | Inr st' \<Rightarrow> scan_links hrefs st')"

text \<open>The \<^verbatim>\<open>except\<close> clauses of the page loop, in their order.\<close>

fun page_handler :: "exn \<Rightarrow> flow" where
  "page_handler TimeoutException = Continue"
| "page_handler NoSuchElementException = Continue"
| "page_handler WebDriverException = Break"
| "page_handler e = Continue"

text \<open>One iteration of the page loop (lines 36 to 101).\<close>

definition scrape_page :: "page_load \<Rightarrow> nat \<Rightarrow> collector_state \<Rightarrow> collector_state \<times> flow" where
  "scrape_page loaded page_num st =
     (let st = st\<lparr>events := events st @ [DriverGet page_num]\<rparr> in
      case loaded of
        PageRaises e \<Rightarrow> (st, page_handler e)
      | PageSource soup \<Rightarrow>
          let article_containers = find_all is_article_container soup in
          if article_containers = [] \<and> page_num > 0 then (st, Break)
          else if article_containers = [] \<and> page_num = 0 then (st, Break)
          else
            (case scan_links (page_hrefs article_containers) (all_article_links st, 0) of
               ((links, page_links_found), Some e) \<Rightarrow>
                 (st\<lparr>all_article_links := links\<rparr>, page_handler e)
             | ((links, page_links_found), None) \<Rightarrow>
                 if page_links_found = 0 \<and> page_num > 0
                 then (st\<lparr>all_article_links := links\<rparr>, Break)
                 else (st\<lparr>all_article_links := links,
                           events := events st @ [Sleep request_delay]\<rparr>, Continue)))"

text \<open>The page loop over the page numbers still to visit.\<close>

fun scrape_pages :: "(nat \<Rightarrow> page_load) \<Rightarrow> nat list \<Rightarrow> collector_state \<Rightarrow> collector_state" where
  "scrape_pages driver [] st = st"
| "scrape_pages driver (page_num # rest) st =
     (case scrape_page (driver page_num) page_num st of
        (st', Break) \<Rightarrow> st'
      | (st', Continue) \<Rightarrow> scrape_pages driver rest st')"

definition collect_links :: "(nat \<Rightarrow> page_load) \<Rightarrow> collector_state" where
  "collect_links driver =
     scrape_pages driver [0..<max_pages_to_scrape] \<lparr>all_article_links = {}, events = []\<rparr>"

section \<open>Article extraction\<close>

record article_record =
  url :: string
  title :: string
  author :: string
  publication_date :: string
  content :: string

text \<open>
  \<^verbatim>\<open>requests.get\<close> either raises or returns a response with a status code; building the
  soup from the response body either raises or yields the parsed document.
\<close>

datatype parsed = ParserRaises exn | Parsed soup

datatype fetched = RequestRaises exn | Response nat parsed

record extractor_state =
  article_data :: "article_record list"
  trace :: "event list"

definition article_request_delay :: nat where
  "article_request_delay = 1"

text \<open>\<^verbatim>\<open>Response.raise_for_status\<close>: client and server error codes raise.\<close>

definition raise_for_status :: "nat \<Rightarrow> exn option" where
  "raise_for_status status_code =
     (if 400 \<le> status_code \<and> status_code < 600 then Some HTTPError else None)"

text \<open>Title: the first \<open>h1\<close> (lines 123 and 124).\<close>

definition extract_title :: "soup \<Rightarrow> string" where
  "extract_title article_soup =
     (case find_tag (\<lambda>t. tag_name t = ''h1'') article_soup of
        Some title_tag \<Rightarrow> get_text title_tag
      | None \<Rightarrow> ''N/A'')"

text \<open>
  Author (lines 129 to 149). The innermost part of the cascade, the search inside the
  byline \<open>div\<close> (lines 140 to 149), comes first.
\<close>

definition is_byline_div :: "node \<Rightarrow> bool" where
  "is_byline_div t = (tag_name t = ''div'' \<and> has_class ''c-article-byline'' t)"

definition is_author_span :: "node \<Rightarrow> bool" where
  "is_author_span t = (tag_name t = ''span'' \<and> has_class ''c-article-byline__name'' t)"

definition is_other_author_element :: "node \<Rightarrow> bool" where
  "is_other_author_element t = (tag_name t = ''a'' \<and> has_class ''u-hover-underline'' t)"

definition is_meta_author :: "node \<Rightarrow> bool" where
  "is_meta_author t = (tag_name t = ''meta'' \<and> get t ''name'' = Some ''author'')"

definition author_in_byline :: "soup \<Rightarrow> string" where
  "author_in_byline article_soup =
     (case find_tag is_byline_div article_soup of
        None \<Rightarrow> ''N/A''
      | Some byline_div \<Rightarrow>
          (case find_tag is_author_span (tag_contents byline_div) of
             Some author_span \<Rightarrow> get_text author_span
           | None \<Rightarrow>
               (case find_tag is_other_author_element (tag_contents byline_div) of
                  Some other_author_element \<Rightarrow> get_text other_author_element
                | None \<Rightarrow> ''N/A'')))"

definition extract_author :: "soup \<Rightarrow> string" where
  "extract_author article_soup =
     (case find_tag (has_class ''c-article-byline__name'') article_soup of
        Some author_tag \<Rightarrow> get_text author_tag
      | None \<Rightarrow>
          (case find_tag is_meta_author article_soup of
             None \<Rightarrow> author_in_byline article_soup
           | Some meta_author \<Rightarrow>
               (case get meta_author ''content'' of
                  None \<Rightarrow> author_in_byline article_soup
                | Some meta_content \<Rightarrow> meta_content)))"

text \<open>Publication date (lines 157 to 171).\<close>

definition is_meta_published_time :: "node \<Rightarrow> bool" where
  "is_meta_published_time t =
     (tag_name t = ''meta'' \<and> get t ''property'' = Some ''article:published_time'')"

definition is_meta_pubdate :: "node \<Rightarrow> bool" where
  "is_meta_pubdate t = (tag_name t = ''meta'' \<and> get t ''name'' = Some ''pubdate'')"

definition is_date_span :: "node \<Rightarrow> bool" where
  "is_date_span t = (tag_name t = ''span'' \<and> has_class ''c-article-byline__date'' t)"

definition date_in_meta :: "soup \<Rightarrow> string" where
  "date_in_meta article_soup =
     (let meta_pub_date =
            (case find_tag is_meta_published_time article_soup of
               Some m \<Rightarrow> Some m
             | None \<Rightarrow> find_tag is_meta_pubdate article_soup);
          date_in_span =
            (case find_tag is_date_span article_soup of
               Some date_span \<Rightarrow> get_text date_span
             | None \<Rightarrow> ''N/A'')
      in case meta_pub_date of
           None \<Rightarrow> date_in_span
         | Some m \<Rightarrow> (case get m ''content'' of None \<Rightarrow> date_in_span | Some c \<Rightarrow> c))"

definition extract_publication_date :: "soup \<Rightarrow> string" where
  "extract_publication_date article_soup =
     (case find_tag (\<lambda>t. tag_name t = ''time'') article_soup of
        None \<Rightarrow> date_in_meta article_soup
      | Some date_tag \<Rightarrow>
          (case get date_tag ''datetime'' of
             None \<Rightarrow> date_in_meta article_soup
           | Some datetime \<Rightarrow> datetime))"

text \<open>Content (lines 178 to 196).\<close>

definition is_p :: "node \<Rightarrow> bool" where
  "is_p t = (tag_name t = ''p'')"

definition is_article_body :: "node \<Rightarrow> bool" where
  "is_article_body t = (tag_name t = ''div'' \<and> has_class ''c-article__body'' t)"

definition is_article :: "node \<Rightarrow> bool" where
  "is_article t = (tag_name t = ''article'')"

text \<open>\<^verbatim>\<open>"\n".join([p.get_text(strip=True) for p in content_paragraphs])\<close>.\<close>

definition join_paragraphs :: "node list \<Rightarrow> string" where
  "join_paragraphs content_paragraphs = join [CHR 0x0A] (map get_text content_paragraphs)"

definition extract_content :: "soup \<Rightarrow> string" where
  "extract_content article_soup =
     (let content_paragraphs = select_content_paragraphs article_soup in
      if content_paragraphs \<noteq> [] then join_paragraphs content_paragraphs
      else
        (case find_tag is_article_body article_soup of
           Some article_body \<Rightarrow>
             (let content_paragraphs = find_all is_p (tag_contents article_body) in
              if content_paragraphs \<noteq> [] then join_paragraphs content_paragraphs else ''N/A'')
         | None \<Rightarrow>
             (case find_tag is_article article_soup of
                Some general_article_container \<Rightarrow>
                  (let content_paragraphs = find_all is_p (tag_contents general_article_container) in
                   if content_paragraphs \<noteq> [] then join_paragraphs content_paragraphs else ''N/A'')
              | None \<Rightarrow> ''N/A'')))"

text \<open>The \<^verbatim>\<open>except\<close> clauses of the article loop, in their order: every one continues.\<close>

fun article_handler :: "exn \<Rightarrow> flow" where
  "article_handler Timeout = Continue"
| "article_handler RequestException = Continue"
| "article_handler HTTPError = Continue"
| "article_handler AttributeError = Continue"
| "article_handler TypeError = Continue"
| "article_handler e = Continue"

text \<open>
  The \<^verbatim>\<open>try\<close> block for one link (lines 118 to 214): the state it leaves, and the
  exception it raised, if any.
\<close>

definition try_article :: "fetched \<Rightarrow> string \<Rightarrow> extractor_state \<Rightarrow> extractor_state \<times> exn option" where
  "try_article response link st =
     (let st = st\<lparr>trace := trace st @ [RequestsGet link]\<rparr> in
      case response of
        RequestRaises e \<Rightarrow> (st, Some e)
      | Response status_code body \<Rightarrow>
          (case raise_for_status status_code of
             Some e \<Rightarrow> (st, Some e)
           | None \<Rightarrow>
               (case body of
                  ParserRaises e \<Rightarrow> (st, Some e)
                | Parsed article_soup \<Rightarrow>
                    (st\<lparr>article_data := article_data st @
                          [\<lparr>url = link,
                            title = extract_title article_soup,
                            author = extract_author article_soup,
                            publication_date = extract_publication_date article_soup,
                            content = extract_content article_soup\<rparr>],
                        trace := trace st @ [Sleep article_request_delay]\<rparr>, None))))"

text \<open>One iteration of the article loop, and the loop over the links still to process.\<close>

definition scrape_article :: "fetched \<Rightarrow> string \<Rightarrow> extractor_state \<Rightarrow> extractor_state \<times> flow" where
  "scrape_article response link st =
     (case try_article response link st of
        (st', Some e) \<Rightarrow> (st', article_handler e)
      | (st', None) \<Rightarrow> (st', Continue))"

fun scrape_articles :: "(string \<Rightarrow> fetched) \<Rightarrow> string list \<Rightarrow> extractor_state \<Rightarrow> extractor_state" where
  "scrape_articles web [] st = st"
| "scrape_articles web (link # rest) st =
     (case scrape_article (web link) link st of
        (st', Break) \<Rightarrow> st'
      | (st', Continue) \<Rightarrow> scrape_articles web rest st')"

text \<open>
  \<^verbatim>\<open>links_to_process = list(all_article_links)\<close> holds every collected link once, in an
  order the language does not fix.
\<close>

definition lists_the_set :: "string list \<Rightarrow> string set \<Rightarrow> bool" where
  "lists_the_set links_to_process links = (distinct links_to_process \<and> set links_to_process = links)"

definition extract_articles :: "(string \<Rightarrow> fetched) \<Rightarrow> string list \<Rightarrow> extractor_state" where
  "extract_articles web links_to_process =
     scrape_articles web links_to_process \<lparr>article_data = [], trace = []\<rparr>"

section \<open>Notions used in the statements\<close>


text \<open>
  The value of the counter \<^verbatim>\<open>page_links_found\<close> when the loops over a loaded page end
  (line 78), or the exception that ended them. It does not depend on the links collected
  before the page (\<open>scan_links_count\<close> below), so it is computed from the empty set.
\<close>

definition page_links_found :: "soup \<Rightarrow> exn + nat" where
  "page_links_found soup =
     (case scan_links (page_hrefs (find_all is_article_container soup)) ({}, 0) of
        ((links, found), None) \<Rightarrow> Inr found
      | ((links, found), Some e) \<Rightarrow> Inl e)"

text \<open>
  An article fetch fails when \<^verbatim>\<open>requests.get\<close> raises, when the status code makes
  \<^verbatim>\<open>raise_for_status\<close> raise, or when parsing raises.
\<close>

fun fetch_fails :: "fetched \<Rightarrow> bool" where
  "fetch_fails (RequestRaises e) = True"
| "fetch_fails (Response status_code (ParserRaises e)) = True"
| "fetch_fails (Response status_code (Parsed article_soup)) = (raise_for_status status_code \<noteq> None)"

text \<open>The record lines 203 to 209 append for a link and its parsed page.\<close>

definition produced_record :: "string \<Rightarrow> soup \<Rightarrow> article_record" where
  "produced_record link article_soup =
     \<lparr>url = link,
      title = extract_title article_soup,
      author = extract_author article_soup,
      publication_date = extract_publication_date article_soup,
      content = extract_content article_soup\<rparr>"

text \<open>
  Two ways to speak of a search without naming its result: no tag below the nodes
  matches, and \<open>t\<close> is the first tag below the nodes, in document order, that matches
  (what \<^verbatim>\<open>find\<close> returns, see \<open>find_tag_first_iff\<close> below).
\<close>

definition no_tag :: "(node \<Rightarrow> bool) \<Rightarrow> node list \<Rightarrow> bool" where
  "no_tag matches nodes = (\<forall>t \<in> set (descendants nodes). \<not> matches t)"

definition first_tag :: "(node \<Rightarrow> bool) \<Rightarrow> node list \<Rightarrow> node \<Rightarrow> bool" where
  "first_tag matches nodes t =
     (\<exists>before after. descendants nodes = before @ t # after \<and> matches t
        \<and> (\<forall>u \<in> set before. \<not> matches u))"

definition is_h1 :: "node \<Rightarrow> bool" where
  "is_h1 t = (tag_name t = ''h1'')"

definition is_time :: "node \<Rightarrow> bool" where
  "is_time t = (tag_name t = ''time'')"

subsection \<open>A cascade that finds nothing\<close>

text \<open>
  For each field, the documents on which every step of its cascade comes back empty.
  Title: there is no \<open>h1\<close>.
\<close>

definition title_finds_nothing :: "soup \<Rightarrow> bool" where
  "title_finds_nothing article_soup = no_tag is_h1 article_soup"

text \<open>
  Author: no tag has the byline-name class; the first \<open>meta\<close> author tag, if there is
  one, has no content; and the first byline \<open>div\<close>, if there is one, holds neither the
  span nor the hyperlink the last two steps look for.
\<close>

definition author_finds_nothing :: "soup \<Rightarrow> bool" where
  "author_finds_nothing article_soup =
     (no_tag (has_class ''c-article-byline__name'') article_soup
      \<and> (\<forall>m. first_tag is_meta_author article_soup m \<longrightarrow> get m ''content'' = None)
      \<and> (\<forall>b. first_tag is_byline_div article_soup b \<longrightarrow>
            no_tag is_author_span (tag_contents b)
            \<and> no_tag is_other_author_element (tag_contents b)))"

text \<open>
  Publication date: the first \<open>time\<close> tag, if any, has no \<open>datetime\<close>; the \<open>meta\<close> tag
  line 163 picks (the first with the property \<open>article:published_time\<close>, or when there
  is none the first named \<open>pubdate\<close>), if any, has no content; and there is no date span.
\<close>

definition date_finds_nothing :: "soup \<Rightarrow> bool" where
  "date_finds_nothing article_soup =
     ((\<forall>t. first_tag is_time article_soup t \<longrightarrow> get t ''datetime'' = None)
      \<and> (\<forall>m. first_tag is_meta_published_time article_soup m \<longrightarrow> get m ''content'' = None)
      \<and> (no_tag is_meta_published_time article_soup \<longrightarrow>
            (\<forall>m. first_tag is_meta_pubdate article_soup m \<longrightarrow> get m ''content'' = None))
      \<and> no_tag is_date_span article_soup)"

text \<open>
  Content: the selector of line 180 selects nothing; the first body \<open>div\<close>, if any, has
  no \<open>p\<close> below it; and when there is no body \<open>div\<close>, the first \<open>article\<close>, if any, has
  no \<open>p\<close> below it. (With a body \<open>div\<close> the \<open>article\<close> step is not tried.)
\<close>

definition content_finds_nothing :: "soup \<Rightarrow> bool" where
  "content_finds_nothing article_soup =
     (select_content_paragraphs article_soup = []
      \<and> (\<forall>b. first_tag is_article_body article_soup b \<longrightarrow> no_tag is_p (tag_contents b))
      \<and> (no_tag is_article_body article_soup \<longrightarrow>
            (\<forall>a. first_tag is_article article_soup a \<longrightarrow> no_tag is_p (tag_contents a))))"

subsection \<open>An extracted string\<close>

text \<open>
  For each field, the strings some step of its cascade can take from the document: the
  text of a matching tag, the value of the attribute read, or the joined texts of a
  non-empty list of paragraphs.
\<close>

definition extracted_title :: "soup \<Rightarrow> string \<Rightarrow> bool" where
  "extracted_title article_soup s =
     (\<exists>t \<in> set (descendants article_soup). is_h1 t \<and> s = get_text t)"

definition extracted_author :: "soup \<Rightarrow> string \<Rightarrow> bool" where
  "extracted_author article_soup s =
     ((\<exists>t \<in> set (descendants article_soup). has_class ''c-article-byline__name'' t \<and> s = get_text t)
      \<or> (\<exists>m \<in> set (descendants article_soup). is_meta_author m \<and> get m ''content'' = Some s)
      \<or> (\<exists>b \<in> set (descendants article_soup). is_byline_div b \<and>
            (\<exists>t \<in> set (descendants (tag_contents b)).
               (is_author_span t \<or> is_other_author_element t) \<and> s = get_text t)))"

definition extracted_date :: "soup \<Rightarrow> string \<Rightarrow> bool" where
  "extracted_date article_soup s =
     ((\<exists>t \<in> set (descendants article_soup). is_time t \<and> get t ''datetime'' = Some s)
      \<or> (\<exists>m \<in> set (descendants article_soup).
            (is_meta_published_time m \<or> is_meta_pubdate m) \<and> get m ''content'' = Some s)
      \<or> (\<exists>t \<in> set (descendants article_soup). is_date_span t \<and> s = get_text t))"

definition extracted_content :: "soup \<Rightarrow> string \<Rightarrow> bool" where
  "extracted_content article_soup s =
     (\<exists>content_paragraphs. content_paragraphs \<noteq> [] \<and> s = join_paragraphs content_paragraphs
        \<and> (content_paragraphs = select_content_paragraphs article_soup
           \<or> (\<exists>c \<in> set (descendants article_soup). (is_article_body c \<or> is_article c)
                 \<and> content_paragraphs = find_all is_p (tag_contents c))))"

subsection \<open>The author cascade without its third step\<close>

text \<open>
  The cascade as the specification numbers it, with step (3) left out: (1) the element
  with the byline-name class, (2) else the content of the \<open>meta\<close> author tag, (4) else,
  inside the byline container, the hyperlink with the class \<open>u-hover-underline\<close>.
\<close>

definition author_link_in_byline :: "soup \<Rightarrow> string" where
  "author_link_in_byline article_soup =
     (case find_tag is_byline_div article_soup of
        None \<Rightarrow> ''N/A''
      | Some byline_div \<Rightarrow>
          (case find_tag is_other_author_element (tag_contents byline_div) of
             Some other_author_element \<Rightarrow> get_text other_author_element
           | None \<Rightarrow> ''N/A''))"

definition extract_author_three_steps :: "soup \<Rightarrow> string" where
  "extract_author_three_steps article_soup =
     (case find_tag (has_class ''c-article-byline__name'') article_soup of
        Some author_tag \<Rightarrow> get_text author_tag
      | None \<Rightarrow>
          (case find_tag is_meta_author article_soup of
             None \<Rightarrow> author_link_in_byline article_soup
           | Some meta_author \<Rightarrow>
               (case get meta_author ''content'' of
                  None \<Rightarrow> author_link_in_byline article_soup
                | Some meta_content \<Rightarrow> meta_content)))"

section \<open>Example inputs\<close>

definition link_to :: "string \<Rightarrow> node" where
  "link_to href = Tag ''a'' None [(''href'', href)] [NavigableString ''headline'']"

text \<open>A listing page with no qualifying link, and one without any article container.\<close>

definition quiet_page :: soup where
  "quiet_page = [Tag ''section'' (Some [''media'']) [] [link_to ''/about'']]"

definition bare_page :: soup where
  "bare_page = [Tag ''p'' None [] [link_to ''/2024/01/02/story'']]"

text \<open>
  Page 0 links to an article, to the same path on another host, to a tag page and to a
  page without a date; page 1 has a container and no qualifying link; the later pages
  link to another article.
\<close>

definition example_listing :: "nat \<Rightarrow> page_load" where
  "example_listing page_num =
     (if page_num = 0
      then PageSource
        [Tag ''div'' (Some [''c-article-tile'', ''wide'']) []
           [link_to ''/2024/01/02/story'',
            link_to ''//example.org/2024/01/02/story'',
            link_to ''/tag/2024/01/02/topic'',
            link_to ''/about'']]
      else if page_num = 1 then PageSource quiet_page
      else PageSource [Tag ''div'' (Some [''article'']) [] [link_to ''/2024/03/04/later'']])"


text \<open>Pages 0 and 1 both link to the same article; the later pages are empty.\<close>

definition repeating_listing :: "nat \<Rightarrow> page_load" where
  "repeating_listing page_num =
     (if page_num < 2
      then PageSource [Tag ''div'' (Some [''article'']) [] [link_to ''/2024/01/02/story'']]
      else PageSource [])"

text \<open>Page 0 has no article container; the later pages have one with an article link.\<close>

definition bare_listing :: "nat \<Rightarrow> page_load" where
  "bare_listing page_num =
     (if page_num = 0 then PageSource bare_page
      else PageSource [Tag ''div'' (Some [''article'']) [] [link_to ''/2024/03/04/later'']])"

text \<open>Article pages.\<close>

definition plain_page :: soup where
  "plain_page = [Tag ''html'' None [] [Tag ''body'' None [] [Tag ''p'' None [] [NavigableString ''text'']]]]"

definition meta_author_page :: soup where
  "meta_author_page =
     [Tag ''html'' None []
        [Tag ''head'' None [] [Tag ''meta'' None [(''name'', ''author''), (''content'', ''Jane Doe'')] []],
         Tag ''body'' None [] [Tag ''h1'' None [] [NavigableString ''Title'']]]]"

definition generic_article_page :: soup where
  "generic_article_page =
     [Tag ''html'' None []
        [Tag ''body'' None []
           [Tag ''article'' None []
              [Tag ''p'' None [] [NavigableString ''A.''],
               Tag ''p'' (Some [''lead'']) [] [NavigableString ''B.'']]]]]"

definition byline_page :: soup where
  "byline_page =
     [Tag ''div'' (Some [''c-article-byline'']) []
        [Tag ''span'' (Some [''c-article-byline__role'']) [] [NavigableString ''By''],
         Tag ''a'' (Some [''u-hover-underline'']) [] [NavigableString '' Ann Author '']]]"

text \<open>
  A web on which every fetch returns \<open>plain_page\<close>, and one on which the first URL
  answers 404, the second answers 200 and every other request times out.
\<close>

definition plain_web :: "string \<Rightarrow> fetched" where
  "plain_web link = Response 200 (Parsed plain_page)"

definition missing_url :: string where
  "missing_url = ''https://www.euronews.com/2024/01/02/missing''"

definition story_url :: string where
  "story_url = ''https://www.euronews.com/2024/01/02/story''"

definition example_web :: "string \<Rightarrow> fetched" where
  "example_web link =
     (if link = missing_url then Response 404 (Parsed plain_page)
      else if link = story_url then Response 200 (Parsed generic_article_page)
      else RequestRaises Timeout)"

text \<open>
  Two pages with two \<open>meta\<close> author tags each, in opposite orders, and a web that serves
  \<open>meta_author_page\<close>.
\<close>

definition jane_doe_tag :: node where
  "jane_doe_tag = Tag ''meta'' None [(''name'', ''author''), (''content'', ''Jane Doe'')] []"

definition john_smith_tag :: node where
  "john_smith_tag = Tag ''meta'' None [(''name'', ''author''), (''content'', ''John Smith'')] []"

definition john_first_page :: soup where
  "john_first_page =
     [Tag ''html'' None [] [Tag ''head'' None [] [john_smith_tag, jane_doe_tag], Tag ''body'' None [] []]]"

definition jane_first_page :: soup where
  "jane_first_page =
     [Tag ''html'' None [] [Tag ''head'' None [] [jane_doe_tag, john_smith_tag], Tag ''body'' None [] []]]"

definition meta_web :: "string \<Rightarrow> fetched" where
  "meta_web link = Response 200 (Parsed meta_author_page)"

text \<open>
  An \<open>article\<close> whose two \<open>p\<close> children are followed by a \<open>div\<close> with a third
  paragraph, and one written with line breaks between the tags, padded and nested text
  and a sibling that is not a paragraph.
\<close>

definition deeper_article :: node where
  "deeper_article =
     Tag ''article'' None []
       [Tag ''p'' None [] [NavigableString ''A.''],
        Tag ''p'' None [] [NavigableString ''B.''],
        Tag ''div'' None [] [Tag ''p'' None [] [NavigableString ''C.'']]]"

definition deeper_paragraph_page :: soup where
  "deeper_paragraph_page = [Tag ''html'' None [] [Tag ''body'' None [] [deeper_article]]]"

definition spaced_article :: node where
  "spaced_article =
     Tag ''article'' (Some [''story'']) []
       [NavigableString [CHR 0x0A, CHR '' '', CHR '' ''],
        Tag ''p'' None [] [NavigableString '' A. ''],
        NavigableString [CHR 0x0A],
        Tag ''span'' None [] [],
        Tag ''p'' (Some [''lead'']) [] [Tag ''b'' None [] [NavigableString ''B.''], NavigableString [CHR 0x0A]],
        NavigableString [CHR 0x0A]]"

definition spaced_article_page :: soup where
  "spaced_article_page =
     [Tag ''html'' None []
        [Tag ''body'' None [] [Tag ''div'' (Some [''page'']) [] [spaced_article]]]]"

section \<open>Lemmas\<close>

subsection \<open>The string tests\<close>

text \<open>\<open>contains\<close> is the substring test, and a search finds a match inside the string.\<close>

lemma contains_iff: "contains pattern s \<longleftrightarrow> (\<exists>before after. s = before @ pattern @ after)"
proof (induction s)
  case Nil
  show ?case by auto
next
  case (Cons c cs)
  show ?case
  proof
    assume "contains pattern (c # cs)"
    then consider "prefix pattern (c # cs)" | "contains pattern cs" by auto
    then show "\<exists>before after. c # cs = before @ pattern @ after"
    proof cases
      case 1
      then obtain after where "c # cs = pattern @ after" by (auto simp: prefix_def)
      then have "c # cs = [] @ pattern @ after" by simp
      then show ?thesis by blast
    next
      case 2
      with Cons.IH obtain before after where "cs = before @ pattern @ after" by blast
      then have "c # cs = (c # before) @ pattern @ after" by simp
      then show ?thesis by blast
    qed
  next
    assume "\<exists>before after. c # cs = before @ pattern @ after"
    then obtain before after where e: "c # cs = before @ pattern @ after" by blast
    show "contains pattern (c # cs)"
    proof (cases before)
      case Nil
      with e have "prefix pattern (c # cs)" by (simp add: prefix_def)
      then show ?thesis by simp
    next
      case (Cons b before')
      with e have "cs = before' @ pattern @ after" by simp
      with Cons.IH have "contains pattern cs" by blast
      then show ?thesis by simp
    qed
  qed
qed

lemma re_search_iff:
  "re_search p s \<longleftrightarrow> (\<exists>before rest. s = before @ rest \<and> match_here p rest)"
proof (induction s)
  case Nil
  show ?case by simp
next
  case (Cons c cs)
  show ?case
  proof
    assume "re_search p (c # cs)"
    then consider "match_here p (c # cs)" | "re_search p cs" by auto
    then show "\<exists>before rest. c # cs = before @ rest \<and> match_here p rest"
    proof cases
      case 1
      then have "c # cs = [] @ (c # cs) \<and> match_here p (c # cs)" by simp
      then show ?thesis by blast
    next
      case 2
      with Cons.IH obtain before rest where "cs = before @ rest" "match_here p rest" by blast
      then have "c # cs = (c # before) @ rest \<and> match_here p rest" by simp
      then show ?thesis by blast
    qed
  next
    assume "\<exists>before rest. c # cs = before @ rest \<and> match_here p rest"
    then obtain before rest where e: "c # cs = before @ rest" and m: "match_here p rest" by blast
    show "re_search p (c # cs)"
    proof (cases before)
      case Nil
      with e m have "match_here p (c # cs)" by simp
      then show ?thesis by simp
    next
      case (Cons b before')
      with e have "cs = before' @ rest" by simp
      with m Cons.IH have "re_search p cs" by blast
      then show ?thesis by simp
    qed
  qed
qed

subsection \<open>The shape of a joined URL\<close>





subsection \<open>Where a collected link comes from\<close>






subsection \<open>The counter and the events of the page loop\<close>

text \<open>
  Whether the scan of a page raises, and what it counts, does not depend on the links
  collected before it.
\<close>

lemma scan_link_raises:
  "scan_link h (S, n) = Inl e \<Longrightarrow> scan_link h (T, n) = Inl e"
  by (cases h) (simp_all split: if_splits sum.splits)

lemma scan_link_returns:
  "scan_link h (S, n) = Inr (S', n') \<Longrightarrow> \<exists>T'. scan_link h (T, n) = Inr (T', n')"
  by (cases h) (auto split: if_splits sum.splits)

lemma scan_links_count:
  "scan_links hs (S, n) = ((S', n'), e) \<Longrightarrow> \<exists>T'. scan_links hs (T, n) = ((T', n'), e)"
proof (induction hs arbitrary: S T n)
  case Nil
  then show ?case by simp
next
  case (Cons h hs)
  show ?case
  proof (cases "scan_link h (S, n)")
    case (Inl x)
    from scan_link_raises [OF Inl] have "scan_link h (T, n) = Inl x" .
    with Inl Cons.prems show ?thesis by simp
  next
    case (Inr st1)
    obtain S1 n1 where st1: "st1 = (S1, n1)" by (cases st1)
    from scan_link_returns [OF Inr [unfolded st1]]
    obtain T1 where t: "scan_link h (T, n) = Inr (T1, n1)" by blast
    from Cons.prems Inr st1 have "scan_links hs (S1, n1) = ((S', n'), e)" by simp
    from Cons.IH [OF this, of T1] obtain T' where "scan_links hs (T1, n1) = ((T', n'), e)" by blast
    with t show ?thesis by simp
  qed
qed

lemma scrape_page_events:
  assumes "scrape_page loaded page_num st = (st', f)"
  shows "events st' = events st @ [DriverGet page_num] \<or>
         events st' = events st @ [DriverGet page_num, Sleep request_delay]"
proof (cases loaded)
  case (PageRaises e)
  with assms show ?thesis by (auto simp: scrape_page_def)
next
  case (PageSource soup)
  obtain S' n' e where "scan_links (page_hrefs (find_all is_article_container soup))
      (all_article_links st, 0) = ((S', n'), e)"
    by (metis prod.exhaust)
  with assms PageSource show ?thesis
    by (auto simp: scrape_page_def Let_def split: if_splits option.splits)
qed

lemma scrape_page_stops:
  assumes "0 < i" "loaded = PageSource soup" "page_links_found soup = Inr 0"
  shows "\<exists>st'. scrape_page loaded i st = (st', Break) \<and> events st' = events st @ [DriverGet i]"
proof -
  let ?hs = "page_hrefs (find_all is_article_container soup)"
  obtain T' m' e' where b: "scan_links ?hs ({}, 0) = ((T', m'), e')"
    by (metis prod.exhaust)
  from assms(3) b have "m' = 0" "e' = None"
    by (auto simp: page_links_found_def split: option.splits)
  with b scan_links_count [of ?hs "{}" 0 T' 0 None "all_article_links st"]
  obtain S' where "scan_links ?hs (all_article_links st, 0) = ((S', 0), None)" by auto
  with assms(1,2) show ?thesis by (simp add: scrape_page_def Let_def)
qed

lemma scrape_pages_events:
  assumes "DriverGet j \<in> set (events (scrape_pages driver ps st))"
  shows "DriverGet j \<in> set (events st) \<or> j \<in> set ps"
  using assms
proof (induction ps arbitrary: st)
  case Nil
  then show ?case by simp
next
  case (Cons p ps)
  obtain st' f where sp: "scrape_page (driver p) p st = (st', f)" by (metis prod.exhaust)
  from scrape_page_events [OF sp]
  have ev: "DriverGet j \<in> set (events st') \<Longrightarrow> DriverGet j \<in> set (events st) \<or> j = p"
    by auto
  show ?case
  proof (cases f)
    case Continue
    with Cons.prems sp have "DriverGet j \<in> set (events (scrape_pages driver ps st'))" by simp
    from Cons.IH [OF this] ev show ?thesis by auto
  next
    case Break
    with Cons.prems sp have "DriverGet j \<in> set (events st')" by simp
    with ev show ?thesis by auto
  qed
qed

lemma scrape_pages_stop:
  assumes "0 < i" "driver i = PageSource soup" "page_links_found soup = Inr 0"
    and "i \<notin> set pre" "DriverGet i \<notin> set (events st)"
  shows "(\<forall>j. DriverGet j \<in> set (events (scrape_pages driver (pre @ i # post) st)) \<longrightarrow>
            DriverGet j \<in> set (events st) \<or> j \<in> set pre \<or> j = i) \<and>
         (DriverGet i \<in> set (events (scrape_pages driver (pre @ i # post) st)) \<longrightarrow>
            last (events (scrape_pages driver (pre @ i # post) st)) = DriverGet i)"
  using assms(4,5)
proof (induction pre arbitrary: st)
  case Nil
  from scrape_page_stops [OF assms(1) assms(2) assms(3), of st]
  obtain st' where "scrape_page (driver i) i st = (st', Break)" "events st' = events st @ [DriverGet i]"
    by blast
  then show ?case by simp
next
  case (Cons p pre)
  obtain st' f where sp: "scrape_page (driver p) p st = (st', f)" by (metis prod.exhaust)
  from Cons.prems have pi: "p \<noteq> i" "i \<notin> set pre" by auto
  from scrape_page_events [OF sp] pi Cons.prems(2)
  have ev: "\<And>j. DriverGet j \<in> set (events st') \<Longrightarrow> DriverGet j \<in> set (events st) \<or> j = p"
    and ni: "DriverGet i \<notin> set (events st')"
    by auto
  show ?case
  proof (cases f)
    case Continue
    with sp have eq: "scrape_pages driver ((p # pre) @ i # post) st = scrape_pages driver (pre @ i # post) st'"
      by simp
    from Cons.IH [OF pi(2) ni] ev show ?thesis unfolding eq by auto
  next
    case Break
    with sp have eq: "scrape_pages driver ((p # pre) @ i # post) st = st'" by simp
    from ev ni show ?thesis unfolding eq by auto
  qed
qed

subsection \<open>The break of line 80\<close>

text \<open>
  When a later page (page index \<open>i > 0\<close>) loads and its scan ends without an exception
  with the counter at zero, no page with a higher index is fetched, and if page \<open>i\<close>
  was fetched, fetching it is the last thing the collector does.
\<close>

lemma zero_counter_stops_collection:
  assumes "0 < i" "driver i = PageSource soup" "page_links_found soup = Inr 0"
  shows "(\<forall>j>i. DriverGet j \<notin> set (events (collect_links driver))) \<and>
         (DriverGet i \<in> set (events (collect_links driver)) \<longrightarrow>
            last (events (collect_links driver)) = DriverGet i)"
proof (cases "i < max_pages_to_scrape")
  case True
  then have split: "[0..<max_pages_to_scrape] = [0..<i] @ i # [Suc i..<max_pages_to_scrape]"
    using upt_add_eq_append [of 0 i "max_pages_to_scrape - i"] by (simp add: upt_conv_Cons)
  have "i \<notin> set [0..<i]" "DriverGet i \<notin> set (events \<lparr>all_article_links = {}, events = []\<rparr>)"
    by simp_all
  from scrape_pages_stop [of i driver soup "[0..<i]" "\<lparr>all_article_links = {}, events = []\<rparr>"
      "[Suc i..<max_pages_to_scrape]", OF assms this]
  show ?thesis unfolding collect_links_def split by auto
next
  case False
  have "\<And>j. DriverGet j \<in> set (events (collect_links driver)) \<Longrightarrow> j < max_pages_to_scrape"
    using scrape_pages_events [of _ driver "[0..<max_pages_to_scrape]" "\<lparr>all_article_links = {}, events = []\<rparr>"]
    unfolding collect_links_def by auto
  with False show ?thesis by fastforce
qed

lemma quiet_page_stops_collection:
  "page_links_found quiet_page = Inr 0
   \<and> DriverGet 2 \<notin> set (events (collect_links example_listing))
   \<and> last (events (collect_links example_listing)) = DriverGet 1"
proof -
  have h1: "example_listing 1 = PageSource quiet_page" by (simp add: example_listing_def)
  have h2: "page_links_found quiet_page = Inr 0" by code_simp
  have f: "DriverGet 1 \<in> set (events (collect_links example_listing))" by code_simp
  from zero_counter_stops_collection
      [where driver = example_listing and i = 1 and soup = quiet_page, OF _ h1 h2] f
  have "DriverGet 2 \<notin> set (events (collect_links example_listing))"
    and "last (events (collect_links example_listing)) = DriverGet 1"
    by auto
  with h2 show ?thesis by simp
qed

subsection \<open>Searching the document\<close>

lemma find_tag_None_iff: "find_tag P nodes = None \<longleftrightarrow> (\<forall>t \<in> set (descendants nodes). \<not> P t)"
proof -
  have "find_tag P nodes = None \<longleftrightarrow> filter P (descendants nodes) = []"
    by (simp add: find_tag_def find_all_def split: list.splits)
  then show ?thesis by (simp add: filter_empty_conv)
qed

lemma find_tag_Some: "find_tag P nodes = Some t \<Longrightarrow> t \<in> set (descendants nodes) \<and> P t"
proof -
  assume "find_tag P nodes = Some t"
  then obtain ts where "filter P (descendants nodes) = t # ts"
    by (auto simp: find_tag_def find_all_def split: list.splits)
  then have "t \<in> set (filter P (descendants nodes))" by simp
  then show ?thesis by simp
qed

lemma find_tag_first_iff: "find_tag P nodes = Some t \<longleftrightarrow> first_tag P nodes t"
proof -
  have "find_tag P nodes = Some t \<longleftrightarrow> (\<exists>ts. filter P (descendants nodes) = t # ts)"
    by (auto simp: find_tag_def find_all_def split: list.splits)
  also have "\<dots> \<longleftrightarrow> first_tag P nodes t"
    unfolding first_tag_def filter_eq_Cons_iff by blast
  finally show ?thesis .
qed

lemma find_tag_no_tag: "find_tag P nodes = None \<longleftrightarrow> no_tag P nodes"
  by (simp add: find_tag_None_iff no_tag_def)

lemma find_all_no_tag: "find_all P nodes = [] \<longleftrightarrow> no_tag P nodes"
  by (simp add: find_all_def no_tag_def filter_empty_conv)

lemma self_and_descendants_contents:
  "t \<in> set (self_and_descendants nd) \<Longrightarrow>
   set (descendants (tag_contents t)) \<subseteq> set (self_and_descendants nd)"
proof (induction nd)
  case (NavigableString s)
  then show ?case by simp
next
  case (Tag n c a kids)
  show ?case
  proof (cases "t = Tag n c a kids")
    case True
    then show ?thesis by (auto simp: descendants_def)
  next
    case False
    with Tag.prems obtain kid where k: "kid \<in> set kids" "t \<in> set (self_and_descendants kid)"
      by auto
    from Tag.IH [OF k] k(1) show ?thesis by auto
  qed
qed

lemma descendants_contents:
  "t \<in> set (descendants nodes) \<Longrightarrow> set (descendants (tag_contents t)) \<subseteq> set (descendants nodes)"
  using self_and_descendants_contents by (fastforce simp: descendants_def)

subsection \<open>The article loop\<close>

text \<open>
  No handler breaks the article loop, so the state after the first \<open>k\<close> iterations over
  \<open>links\<close> is \<open>scrape_articles web (take k links)\<close> of the initial state
  (\<open>scrape_articles_append\<close>).
\<close>

lemma article_handler_continues: "article_handler e = Continue"
  by (cases e) simp_all

lemma scrape_article_fails:
  assumes "fetch_fails response"
  shows "scrape_article response link st = (st\<lparr>trace := trace st @ [RequestsGet link]\<rparr>, Continue)"
proof (cases response)
  case (RequestRaises e)
  then show ?thesis
    by (simp add: scrape_article_def try_article_def Let_def article_handler_continues)
next
  case (Response status_code body)
  show ?thesis
  proof (cases body)
    case (ParserRaises e)
    with Response show ?thesis
      by (simp add: scrape_article_def try_article_def Let_def article_handler_continues
          split: option.splits)
  next
    case (Parsed article_soup)
    with Response assms obtain e where "raise_for_status status_code = Some e" by auto
    with Response show ?thesis
      by (simp add: scrape_article_def try_article_def Let_def article_handler_continues)
  qed
qed

lemma scrape_article_succeeds:
  assumes "response = Response status_code (Parsed article_soup)" "raise_for_status status_code = None"
  shows "scrape_article response link st =
     (st\<lparr>article_data := article_data st @ [produced_record link article_soup],
         trace := trace st @ [RequestsGet link, Sleep article_request_delay]\<rparr>, Continue)"
  using assms by (simp add: scrape_article_def try_article_def Let_def produced_record_def)

lemma not_fails_cases:
  assumes "\<not> fetch_fails response"
  obtains status_code article_soup
  where "response = Response status_code (Parsed article_soup)" "raise_for_status status_code = None"
  using assms by (cases response rule: fetch_fails.cases) auto

lemma scrape_article_data:
  "article_data (fst (scrape_article response link st)) =
     article_data st @
       (if fetch_fails response then []
        else [produced_record link (case response of Response s (Parsed article_soup) \<Rightarrow> article_soup)])"
proof (cases "fetch_fails response")
  case True
  then show ?thesis by (simp add: scrape_article_fails)
next
  case False
  then obtain status_code article_soup
    where r: "response = Response status_code (Parsed article_soup)" "raise_for_status status_code = None"
    by (rule not_fails_cases)
  from scrape_article_succeeds [OF r] False r(1) show ?thesis by simp
qed

lemma scrape_article_flow: "snd (scrape_article response link st) = Continue"
  by (simp add: scrape_article_def article_handler_continues split: prod.splits option.splits)

lemma scrape_articles_step:
  "scrape_articles web (link # rest) st = scrape_articles web rest (fst (scrape_article (web link) link st))"
  using scrape_article_flow [of "web link" link st]
  by (cases "scrape_article (web link) link st") simp

lemma scrape_articles_append:
  "scrape_articles web (xs @ ys) st = scrape_articles web ys (scrape_articles web xs st)"
proof (induction xs arbitrary: st)
  case Nil
  show ?case by simp
next
  case (Cons x xs)
  show ?case unfolding append_Cons scrape_articles_step by (rule Cons.IH)
qed

lemma scrape_articles_urls:
  "map url (article_data (scrape_articles web links st)) =
     map url (article_data st) @ filter (\<lambda>l. \<not> fetch_fails (web l)) links"
proof (induction links arbitrary: st)
  case Nil
  show ?case by simp
next
  case (Cons link rest)
  show ?case
    unfolding scrape_articles_step Cons.IH scrape_article_data
    by (simp add: produced_record_def)
qed

subsection \<open>Selectors that find nothing\<close>

lemma select_below_none:
  "\<forall>t \<in> set (self_and_descendants nd). \<not> is_content_div (tag_name t) (tag_class t) \<Longrightarrow>
   select_below False nd = []"
proof (induction nd)
  case (NavigableString s)
  show ?case by simp
next
  case (Tag n c a kids)
  from Tag.prems have here: "\<not> is_content_div n c" by simp
  have "\<And>kid. kid \<in> set kids \<Longrightarrow> select_below False kid = []"
  proof -
    fix kid assume k: "kid \<in> set kids"
    with Tag.prems have "\<forall>t \<in> set (self_and_descendants kid). \<not> is_content_div (tag_name t) (tag_class t)"
      by auto
    from Tag.IH [OF k this] show "select_below False kid = []" .
  qed
  with here show ?case by simp
qed

lemma select_content_paragraphs_none:
  assumes "\<forall>t \<in> set (descendants article_soup). \<not> is_content_div (tag_name t) (tag_class t)"
  shows "select_content_paragraphs article_soup = []"
proof -
  have "\<And>nd. nd \<in> set article_soup \<Longrightarrow> select_below False nd = []"
    using assms by (intro select_below_none) (auto simp: descendants_def)
  then show ?thesis by (simp add: select_content_paragraphs_def)
qed

subsection \<open>The four cascades\<close>

text \<open>
  Each cascade returns the sentinel or a string it extracted from the document, and
  the sentinel when every one of its steps finds nothing.
\<close>

lemma title_cases:
  "(extract_title article_soup = ''N/A'' \<or> extracted_title article_soup (extract_title article_soup))
   \<and> (title_finds_nothing article_soup \<longrightarrow> extract_title article_soup = ''N/A'')"
proof (cases "find_tag (\<lambda>t. tag_name t = ''h1'') article_soup")
  case None
  then show ?thesis by (simp add: extract_title_def)
next
  case (Some title_tag)
  from find_tag_Some [OF Some] have "extracted_title article_soup (get_text title_tag)"
    by (auto simp: extracted_title_def is_h1_def)
  moreover from find_tag_Some [OF Some] have "\<not> title_finds_nothing article_soup"
    by (auto simp: title_finds_nothing_def no_tag_def is_h1_def)
  ultimately show ?thesis using Some by (simp add: extract_title_def)
qed

lemma author_in_byline_cases:
  "(author_in_byline article_soup = ''N/A''
      \<or> extracted_author article_soup (author_in_byline article_soup))
   \<and> ((\<forall>b. first_tag is_byline_div article_soup b \<longrightarrow>
            no_tag is_author_span (tag_contents b)
            \<and> no_tag is_other_author_element (tag_contents b))
        \<longrightarrow> author_in_byline article_soup = ''N/A'')"
proof (cases "find_tag is_byline_div article_soup")
  case None
  then show ?thesis by (simp add: author_in_byline_def)
next
  case (Some byline_div)
  note b = find_tag_Some [OF Some]
  from Some have fb: "first_tag is_byline_div article_soup byline_div"
    by (simp add: find_tag_first_iff)
  show ?thesis
  proof (cases "find_tag is_author_span (tag_contents byline_div)")
    case (Some author_span)
    from find_tag_Some [OF Some] b
    have "extracted_author article_soup (get_text author_span)"
      unfolding extracted_author_def by blast
    moreover from find_tag_Some [OF Some] have "\<not> no_tag is_author_span (tag_contents byline_div)"
      by (auto simp: no_tag_def)
    ultimately show ?thesis
      using \<open>find_tag is_byline_div article_soup = Some byline_div\<close> Some fb
      by (auto simp: author_in_byline_def)
  next
    case None
    note span = None
    show ?thesis
    proof (cases "find_tag is_other_author_element (tag_contents byline_div)")
      case None
      with span \<open>find_tag is_byline_div article_soup = Some byline_div\<close>
      show ?thesis by (simp add: author_in_byline_def)
    next
      case (Some other_author_element)
      from find_tag_Some [OF Some] b
      have "extracted_author article_soup (get_text other_author_element)"
        unfolding extracted_author_def by blast
      moreover from find_tag_Some [OF Some]
      have "\<not> no_tag is_other_author_element (tag_contents byline_div)"
        by (auto simp: no_tag_def)
      ultimately show ?thesis
        using \<open>find_tag is_byline_div article_soup = Some byline_div\<close> Some span fb
        by (auto simp: author_in_byline_def)
    qed
  qed
qed

lemma author_cases:
  "(extract_author article_soup = ''N/A'' \<or> extracted_author article_soup (extract_author article_soup))
   \<and> (author_finds_nothing article_soup \<longrightarrow> extract_author article_soup = ''N/A'')"
proof (cases "find_tag (has_class ''c-article-byline__name'') article_soup")
  case (Some author_tag)
  from find_tag_Some [OF Some] have "extracted_author article_soup (get_text author_tag)"
    unfolding extracted_author_def by blast
  moreover from find_tag_Some [OF Some] have "\<not> author_finds_nothing article_soup"
    by (auto simp: author_finds_nothing_def no_tag_def)
  ultimately show ?thesis using Some by (simp add: extract_author_def)
next
  case None
  note cls = None
  note byline = author_in_byline_cases [of article_soup]
  show ?thesis
  proof (cases "find_tag is_meta_author article_soup")
    case None
    with cls have "extract_author article_soup = author_in_byline article_soup"
      by (simp add: extract_author_def)
    with byline show ?thesis by (auto simp: author_finds_nothing_def)
  next
    case (Some meta_author)
    note m = find_tag_Some [OF Some]
    from Some have fm: "first_tag is_meta_author article_soup meta_author"
      by (simp add: find_tag_first_iff)
    show ?thesis
    proof (cases "get meta_author ''content''")
      case None
      with cls Some have "extract_author article_soup = author_in_byline article_soup"
        by (simp add: extract_author_def)
      with byline show ?thesis by (auto simp: author_finds_nothing_def)
    next
      case (Some meta_content)
      with m have "extracted_author article_soup meta_content"
        unfolding extracted_author_def by blast
      moreover from Some fm have "\<not> author_finds_nothing article_soup"
        by (auto simp: author_finds_nothing_def)
      ultimately show ?thesis
        using cls \<open>find_tag is_meta_author article_soup = Some meta_author\<close> Some
        by (simp add: extract_author_def)
    qed
  qed
qed

lemma date_in_span_cases:
  "((case find_tag is_date_span article_soup of Some date_span \<Rightarrow> get_text date_span | None \<Rightarrow> ''N/A'') = ''N/A''
      \<or> extracted_date article_soup
           (case find_tag is_date_span article_soup of Some date_span \<Rightarrow> get_text date_span | None \<Rightarrow> ''N/A''))
   \<and> (no_tag is_date_span article_soup \<longrightarrow>
        (case find_tag is_date_span article_soup of Some date_span \<Rightarrow> get_text date_span | None \<Rightarrow> ''N/A'') = ''N/A'')"
proof (cases "find_tag is_date_span article_soup")
  case None
  then show ?thesis by simp
next
  case (Some date_span)
  from find_tag_Some [OF Some] have "extracted_date article_soup (get_text date_span)"
    unfolding extracted_date_def by blast
  moreover from find_tag_Some [OF Some] have "\<not> no_tag is_date_span article_soup"
    by (auto simp: no_tag_def)
  ultimately show ?thesis using Some by simp
qed

lemma date_in_meta_cases:
  "(date_in_meta article_soup = ''N/A'' \<or> extracted_date article_soup (date_in_meta article_soup))
   \<and> ((\<forall>m. first_tag is_meta_published_time article_soup m \<longrightarrow> get m ''content'' = None)
        \<and> (no_tag is_meta_published_time article_soup \<longrightarrow>
              (\<forall>m. first_tag is_meta_pubdate article_soup m \<longrightarrow> get m ''content'' = None))
        \<and> no_tag is_date_span article_soup
        \<longrightarrow> date_in_meta article_soup = ''N/A'')"
proof -
  let ?span = "case find_tag is_date_span article_soup of
      Some date_span \<Rightarrow> get_text date_span | None \<Rightarrow> ''N/A''"
  note span = date_in_span_cases [of article_soup]
  show ?thesis
  proof (cases "find_tag is_meta_published_time article_soup")
    case (Some m)
    note pm = find_tag_Some [OF Some]
    from Some have fm: "first_tag is_meta_published_time article_soup m"
      by (simp add: find_tag_first_iff)
    show ?thesis
    proof (cases "get m ''content''")
      case None
      with Some have "date_in_meta article_soup = ?span" by (simp add: date_in_meta_def)
      with span show ?thesis by auto
    next
      case (Some c)
      with pm have "extracted_date article_soup c" unfolding extracted_date_def by blast
      moreover from Some fm
      have "\<not> (\<forall>m. first_tag is_meta_published_time article_soup m \<longrightarrow> get m ''content'' = None)"
        by auto
      ultimately show ?thesis
        using \<open>find_tag is_meta_published_time article_soup = Some m\<close> Some
        by (auto simp: date_in_meta_def)
    qed
  next
    case None
    note published = None
    then have np: "no_tag is_meta_published_time article_soup" by (simp add: find_tag_no_tag)
    show ?thesis
    proof (cases "find_tag is_meta_pubdate article_soup")
      case None
      with published have "date_in_meta article_soup = ?span" by (simp add: date_in_meta_def)
      with span show ?thesis by auto
    next
      case (Some m)
      note pm = find_tag_Some [OF Some]
      from Some have fm: "first_tag is_meta_pubdate article_soup m"
        by (simp add: find_tag_first_iff)
      show ?thesis
      proof (cases "get m ''content''")
        case None
        with Some published have "date_in_meta article_soup = ?span"
          by (simp add: date_in_meta_def)
        with span show ?thesis by auto
      next
        case (Some c)
        with pm have "extracted_date article_soup c" unfolding extracted_date_def by blast
        moreover from Some fm np
        have "\<not> (no_tag is_meta_published_time article_soup \<longrightarrow>
              (\<forall>m. first_tag is_meta_pubdate article_soup m \<longrightarrow> get m ''content'' = None))"
          by auto
        ultimately show ?thesis
          using published \<open>find_tag is_meta_pubdate article_soup = Some m\<close> Some
          by (auto simp: date_in_meta_def)
      qed
    qed
  qed
qed

lemma date_cases:
  "(extract_publication_date article_soup = ''N/A''
      \<or> extracted_date article_soup (extract_publication_date article_soup))
   \<and> (date_finds_nothing article_soup \<longrightarrow> extract_publication_date article_soup = ''N/A'')"
proof -
  note meta = date_in_meta_cases [of article_soup]
  show ?thesis
  proof (cases "find_tag (\<lambda>t. tag_name t = ''time'') article_soup")
    case None
    then have "extract_publication_date article_soup = date_in_meta article_soup"
      by (simp add: extract_publication_date_def)
    with meta show ?thesis by (auto simp: date_finds_nothing_def)
  next
    case (Some date_tag)
    note t = find_tag_Some [OF Some]
    from Some have ft: "first_tag is_time article_soup date_tag"
      by (simp add: find_tag_first_iff [symmetric] is_time_def [abs_def])
    show ?thesis
    proof (cases "get date_tag ''datetime''")
      case None
      with Some have "extract_publication_date article_soup = date_in_meta article_soup"
        by (simp add: extract_publication_date_def)
      with meta show ?thesis by (auto simp: date_finds_nothing_def)
    next
      case (Some datetime)
      with t have "extracted_date article_soup datetime"
        unfolding extracted_date_def is_time_def by blast
      moreover from Some ft have "\<not> date_finds_nothing article_soup"
        by (auto simp: date_finds_nothing_def)
      ultimately show ?thesis
        using \<open>find_tag (\<lambda>t. tag_name t = ''time'') article_soup = Some date_tag\<close> Some
        by (simp add: extract_publication_date_def)
    qed
  qed
qed

lemma paragraphs_below_cases:
  assumes "c \<in> set (descendants article_soup)" "is_article_body c \<or> is_article c"
  shows "((if find_all is_p (tag_contents c) \<noteq> [] then join_paragraphs (find_all is_p (tag_contents c))
           else ''N/A'') = ''N/A''
          \<or> extracted_content article_soup
              (if find_all is_p (tag_contents c) \<noteq> [] then join_paragraphs (find_all is_p (tag_contents c))
               else ''N/A''))
       \<and> (no_tag is_p (tag_contents c) \<longrightarrow>
            (if find_all is_p (tag_contents c) \<noteq> [] then join_paragraphs (find_all is_p (tag_contents c))
             else ''N/A'') = ''N/A'')"
proof (cases "find_all is_p (tag_contents c) = []")
  case True
  then show ?thesis by simp
next
  case False
  with assms have "extracted_content article_soup (join_paragraphs (find_all is_p (tag_contents c)))"
    unfolding extracted_content_def by blast
  moreover from False have "\<not> no_tag is_p (tag_contents c)" by (simp add: find_all_no_tag)
  ultimately show ?thesis using False by simp
qed

lemma content_cases:
  "(extract_content article_soup = ''N/A''
      \<or> extracted_content article_soup (extract_content article_soup))
   \<and> (content_finds_nothing article_soup \<longrightarrow> extract_content article_soup = ''N/A'')"
proof (cases "select_content_paragraphs article_soup = []")
  case False
  then have "extract_content article_soup = join_paragraphs (select_content_paragraphs article_soup)"
    by (simp add: extract_content_def)
  moreover from False
  have "extracted_content article_soup (join_paragraphs (select_content_paragraphs article_soup))"
    unfolding extracted_content_def by blast
  moreover from False have "\<not> content_finds_nothing article_soup"
    by (simp add: content_finds_nothing_def)
  ultimately show ?thesis by simp
next
  case True
  note sel = True
  show ?thesis
  proof (cases "find_tag is_article_body article_soup")
    case (Some article_body)
    note b = find_tag_Some [OF Some]
    from Some have fb: "first_tag is_article_body article_soup article_body"
      by (simp add: find_tag_first_iff)
    from sel Some have "extract_content article_soup =
        (if find_all is_p (tag_contents article_body) \<noteq> []
         then join_paragraphs (find_all is_p (tag_contents article_body)) else ''N/A'')"
      by (simp add: extract_content_def Let_def)
    with paragraphs_below_cases [of article_body article_soup] b fb
    show ?thesis by (auto simp: content_finds_nothing_def)
  next
    case None
    note body = None
    then have nb: "no_tag is_article_body article_soup" by (simp add: find_tag_no_tag)
    show ?thesis
    proof (cases "find_tag is_article article_soup")
      case None
      with sel body show ?thesis by (simp add: extract_content_def)
    next
      case (Some general_article_container)
      note a = find_tag_Some [OF Some]
      from Some have fa: "first_tag is_article article_soup general_article_container"
        by (simp add: find_tag_first_iff)
      from sel body Some have "extract_content article_soup =
          (if find_all is_p (tag_contents general_article_container) \<noteq> []
           then join_paragraphs (find_all is_p (tag_contents general_article_container)) else ''N/A'')"
        by (simp add: extract_content_def Let_def)
      with paragraphs_below_cases [of general_article_container article_soup] a fa nb
      show ?thesis by (auto simp: content_finds_nothing_def)
    qed
  qed
qed


section \<open>The claims\<close>

subsection \<open>Link collection\<close>




text \<open>
  Claim C2 says that collection stops at a later page that adds no new link to the set,
  and the script states the same rule in its log message of line 81
  (\<^verbatim>\<open>No new article links found on subsequent page ... Assuming end of pagination\<close>) and
  its comment of line 88. The counter of line 76 also counts a qualifying link that is
  already in the set, so a page that only repeats known links does not stop the
  collector. Page 1 of \<open>repeating_listing\<close> repeats the link of page 0: the set after
  page 1 is the set after page 0, and page 2 is fetched all the same.
\<close>

theorem repeated_links_do_not_stop:
  "all_article_links (scrape_pages repeating_listing [0] \<lparr>all_article_links = {}, events = []\<rparr>)
     = {''https://www.euronews.com/2024/01/02/story''}
   \<and> all_article_links (scrape_pages repeating_listing [0, 1] \<lparr>all_article_links = {}, events = []\<rparr>)
     = {''https://www.euronews.com/2024/01/02/story''}
   \<and> events (collect_links repeating_listing)
     = [DriverGet 0, Sleep 5, DriverGet 1, Sleep 5, DriverGet 2]"
  by code_simp

text \<open>
  Claim C3. If page 0 loads and no article container is found on it, the collector
  returns the empty link set and fetches no further page: loading page 0 is all it does.
\<close>

theorem no_containers_on_first_page:
  assumes "driver 0 = PageSource soup" "find_all is_article_container soup = []"
  shows "all_article_links (collect_links driver) = {} \<and> events (collect_links driver) = [DriverGet 0]"
proof -
  have "[0..<max_pages_to_scrape] = 0 # [1..<max_pages_to_scrape]"
    by (simp add: max_pages_to_scrape_def upt_conv_Cons)
  with assms show ?thesis
    by (simp add: collect_links_def scrape_page_def)
qed

theorem no_containers_on_first_page_witness:
  "bare_listing 0 = PageSource bare_page \<and> find_all is_article_container bare_page = []
   \<and> all_article_links (collect_links bare_listing) = {}
   \<and> events (collect_links bare_listing) = [DriverGet 0]"
proof -
  have h1: "bare_listing 0 = PageSource bare_page" by (simp add: bare_listing_def)
  have h2: "find_all is_article_container bare_page = []" by code_simp
  from no_containers_on_first_page [where driver = bare_listing and soup = bare_page, OF h1 h2] h1 h2
  show ?thesis by simp
qed

subsection \<open>Article extraction\<close>

text \<open>
  Claim C4. When the fetch of an article succeeds (a response whose status does not
  raise, and a page that parses), one record is appended to the result list and the loop
  goes on with the next link. The record carries the link and four strings. Each of the
  four is the sentinel \<^verbatim>\<open>"N/A"\<close> or a string its cascade extracted from the document, and
  it is the sentinel whenever its own cascade finds nothing, whatever the other three
  cascades find: a field that falls through does not keep the record from being appended.
\<close>

theorem record_appended_with_defaults:
  assumes "web link = Response status_code (Parsed article_soup)" "raise_for_status status_code = None"
  shows "scrape_articles web (link # rest) st =
           scrape_articles web rest
             (st\<lparr>article_data := article_data st @ [produced_record link article_soup],
                 trace := trace st @ [RequestsGet link, Sleep article_request_delay]\<rparr>)
       \<and> url (produced_record link article_soup) = link
       \<and> (title (produced_record link article_soup) = ''N/A''
            \<or> extracted_title article_soup (title (produced_record link article_soup)))
       \<and> (title_finds_nothing article_soup \<longrightarrow> title (produced_record link article_soup) = ''N/A'')
       \<and> (author (produced_record link article_soup) = ''N/A''
            \<or> extracted_author article_soup (author (produced_record link article_soup)))
       \<and> (author_finds_nothing article_soup \<longrightarrow> author (produced_record link article_soup) = ''N/A'')
       \<and> (publication_date (produced_record link article_soup) = ''N/A''
            \<or> extracted_date article_soup (publication_date (produced_record link article_soup)))
       \<and> (date_finds_nothing article_soup \<longrightarrow>
            publication_date (produced_record link article_soup) = ''N/A'')
       \<and> (content (produced_record link article_soup) = ''N/A''
            \<or> extracted_content article_soup (content (produced_record link article_soup)))
       \<and> (content_finds_nothing article_soup \<longrightarrow> content (produced_record link article_soup) = ''N/A'')"
proof -
  from scrape_article_succeeds [OF assms, of link st]
  have "scrape_articles web (link # rest) st =
           scrape_articles web rest
             (st\<lparr>article_data := article_data st @ [produced_record link article_soup],
                 trace := trace st @ [RequestsGet link, Sleep article_request_delay]\<rparr>)"
    by (simp add: scrape_articles_step assms(1))
  moreover have "url (produced_record link article_soup) = link"
    and "title (produced_record link article_soup) = extract_title article_soup"
    and "author (produced_record link article_soup) = extract_author article_soup"
    and "publication_date (produced_record link article_soup) = extract_publication_date article_soup"
    and "content (produced_record link article_soup) = extract_content article_soup"
    by (simp_all add: produced_record_def)
  ultimately show ?thesis
    using title_cases [of article_soup] author_cases [of article_soup]
      date_cases [of article_soup] content_cases [of article_soup]
    by simp
qed

theorem record_appended_with_defaults_witness:
  "plain_web ''u'' = Response 200 (Parsed plain_page) \<and> raise_for_status 200 = None
   \<and> title_finds_nothing plain_page \<and> author_finds_nothing plain_page
   \<and> date_finds_nothing plain_page \<and> content_finds_nothing plain_page
   \<and> article_data (extract_articles plain_web [''u'']) =
       [\<lparr>url = ''u'', title = ''N/A'', author = ''N/A'', publication_date = ''N/A'',
         content = ''N/A''\<rparr>]
   \<and> meta_web ''u'' = Response 200 (Parsed meta_author_page)
   \<and> date_finds_nothing meta_author_page \<and> content_finds_nothing meta_author_page
   \<and> article_data (extract_articles meta_web [''u'']) =
       [\<lparr>url = ''u'', title = ''Title'', author = ''Jane Doe'', publication_date = ''N/A'',
         content = ''N/A''\<rparr>]"
proof -
  have h1: "plain_web ''u'' = Response 200 (Parsed plain_page)" by (simp add: plain_web_def)
  have h2: "raise_for_status 200 = None" by (simp add: raise_for_status_def)
  have none: "find_tag is_h1 plain_page = None"
    "find_tag (has_class ''c-article-byline__name'') plain_page = None"
    "find_tag is_meta_author plain_page = None" "find_tag is_byline_div plain_page = None"
    "find_tag is_time plain_page = None" "find_tag is_meta_published_time plain_page = None"
    "find_tag is_meta_pubdate plain_page = None" "find_tag is_date_span plain_page = None"
    "select_content_paragraphs plain_page = []" "find_tag is_article_body plain_page = None"
    "find_tag is_article plain_page = None"
    by code_simp+
  have t: "title_finds_nothing plain_page"
    by (simp add: title_finds_nothing_def find_tag_no_tag [symmetric] none)
  have a: "author_finds_nothing plain_page"
    by (simp add: author_finds_nothing_def find_tag_no_tag [symmetric]
        find_tag_first_iff [symmetric] none)
  have d: "date_finds_nothing plain_page"
    by (simp add: date_finds_nothing_def find_tag_no_tag [symmetric]
        find_tag_first_iff [symmetric] none)
  have c: "content_finds_nothing plain_page"
    by (simp add: content_finds_nothing_def find_tag_no_tag [symmetric]
        find_tag_first_iff [symmetric] none)
  from record_appended_with_defaults
      [where web = plain_web and link = "''u''" and status_code = 200 and article_soup = plain_page
         and rest = "[]" and st = "\<lparr>article_data = [], trace = []\<rparr>", OF h1 h2] t a d c
  have "article_data (extract_articles plain_web [''u'']) = [produced_record ''u'' plain_page]"
    and "produced_record ''u'' plain_page =
       \<lparr>url = ''u'', title = ''N/A'', author = ''N/A'', publication_date = ''N/A'',
         content = ''N/A''\<rparr>"
    by (simp_all add: extract_articles_def produced_record_def)
  then have plain: "article_data (extract_articles plain_web [''u'']) =
       [\<lparr>url = ''u'', title = ''N/A'', author = ''N/A'', publication_date = ''N/A'',
         content = ''N/A''\<rparr>]"
    by simp
  have g1: "meta_web ''u'' = Response 200 (Parsed meta_author_page)" by (simp add: meta_web_def)
  have none': "find_tag is_time meta_author_page = None"
    "find_tag is_meta_published_time meta_author_page = None"
    "find_tag is_meta_pubdate meta_author_page = None"
    "find_tag is_date_span meta_author_page = None"
    "select_content_paragraphs meta_author_page = []"
    "find_tag is_article_body meta_author_page = None"
    "find_tag is_article meta_author_page = None"
    by code_simp+
  have d': "date_finds_nothing meta_author_page"
    by (simp add: date_finds_nothing_def find_tag_no_tag [symmetric]
        find_tag_first_iff [symmetric] none')
  have c': "content_finds_nothing meta_author_page"
    by (simp add: content_finds_nothing_def find_tag_no_tag [symmetric]
        find_tag_first_iff [symmetric] none')
  have found: "extract_title meta_author_page = ''Title''"
    "extract_author meta_author_page = ''Jane Doe''"
    by code_simp+
  from record_appended_with_defaults
      [where web = meta_web and link = "''u''" and status_code = 200
         and article_soup = meta_author_page
         and rest = "[]" and st = "\<lparr>article_data = [], trace = []\<rparr>", OF g1 h2] d' c' found
  have "article_data (extract_articles meta_web [''u'']) = [produced_record ''u'' meta_author_page]"
    and "produced_record ''u'' meta_author_page =
       \<lparr>url = ''u'', title = ''Title'', author = ''Jane Doe'', publication_date = ''N/A'',
         content = ''N/A''\<rparr>"
    by (simp_all add: extract_articles_def produced_record_def)
  then have "article_data (extract_articles meta_web [''u'']) =
       [\<lparr>url = ''u'', title = ''Title'', author = ''Jane Doe'', publication_date = ''N/A'',
         content = ''N/A''\<rparr>]"
    by simp
  with h1 h2 t a d c plain g1 d' c' show ?thesis by simp
qed

text \<open>
  Claim C5. When the fetch of an article URL fails (the request raises, for instance by
  timing out; the status code is an error such as 404; or parsing raises, for instance an
  attribute or type error), the iteration leaves the result list as it was and the loop
  goes on with the next link; no record of the finished run carries that URL.
\<close>

theorem failed_fetch_leaves_no_record:
  assumes "fetch_fails (web link)"
  shows "scrape_articles web (link # rest) st =
           scrape_articles web rest (st\<lparr>trace := trace st @ [RequestsGet link]\<rparr>)
       \<and> article_data (st\<lparr>trace := trace st @ [RequestsGet link]\<rparr>) = article_data st
       \<and> link \<notin> url ` set (article_data (extract_articles web links_to_process))"
proof -
  have "map url (article_data (extract_articles web links_to_process)) =
      filter (\<lambda>l. \<not> fetch_fails (web l)) links_to_process"
    by (simp add: extract_articles_def scrape_articles_urls)
  then have "url ` set (article_data (extract_articles web links_to_process)) =
      set (filter (\<lambda>l. \<not> fetch_fails (web l)) links_to_process)"
    by (metis set_map)
  with assms show ?thesis
    by (simp add: scrape_articles_step scrape_article_fails)
qed

theorem failed_fetch_leaves_no_record_witness:
  "fetch_fails (example_web missing_url)
   \<and> fetch_fails (RequestRaises Timeout) \<and> fetch_fails (RequestRaises RequestException)
   \<and> fetch_fails (Response 200 (ParserRaises AttributeError))
   \<and> fetch_fails (Response 200 (ParserRaises TypeError))
   \<and> missing_url \<notin> url ` set (article_data (extract_articles example_web [missing_url, story_url]))
   \<and> map url (article_data (extract_articles example_web [missing_url, story_url])) = [story_url]"
proof -
  have h: "fetch_fails (example_web missing_url)"
    by (simp add: example_web_def raise_for_status_def)
  have "map url (article_data (extract_articles example_web [missing_url, story_url])) = [story_url]"
    by code_simp
  with failed_fetch_leaves_no_record
      [where web = example_web and link = missing_url and rest = "[]"
         and st = "\<lparr>article_data = [], trace = []\<rparr>"
         and links_to_process = "[missing_url, story_url]", OF h] h
  show ?thesis by simp
qed

text \<open>
  Claim C6, as amended. On a document in which no element has the byline-name class and
  whose first \<open>meta\<close> author tag, in document order, carries the content \<^verbatim>\<open>Jane Doe\<close>,
  the extracted author is exactly \<^verbatim>\<open>Jane Doe\<close>.
\<close>

theorem author_from_meta_tag:
  assumes "\<forall>t \<in> set (descendants article_soup). \<not> has_class ''c-article-byline__name'' t"
    and "first_tag is_meta_author article_soup m"
    and "get m ''content'' = Some ''Jane Doe''"
  shows "extract_author article_soup = ''Jane Doe''"
proof -
  from assms(1) have "find_tag (has_class ''c-article-byline__name'') article_soup = None"
    by (simp add: find_tag_None_iff)
  moreover from assms(2) have "find_tag is_meta_author article_soup = Some m"
    by (simp add: find_tag_first_iff)
  ultimately show ?thesis using assms(3) by (simp add: extract_author_def)
qed

text \<open>
  The claim as stated asks only that the document contain such a tag. Line 135 takes
  the first \<open>meta\<close> author tag: on \<open>john_first_page\<close>, which contains the tag of the claim
  after another one and has no element with the byline-name class, the author is
  \<^verbatim>\<open>John Smith\<close>.
\<close>

theorem first_meta_author_wins:
  "jane_doe_tag \<in> set (descendants john_first_page)
   \<and> is_meta_author jane_doe_tag \<and> get jane_doe_tag ''content'' = Some ''Jane Doe''
   \<and> list_all (\<lambda>t. \<not> has_class ''c-article-byline__name'' t) (descendants john_first_page)
   \<and> extract_author john_first_page = ''John Smith''
   \<and> extract_author john_first_page \<noteq> ''Jane Doe''"
  by code_simp

theorem author_from_meta_tag_witness:
  "list_all (\<lambda>t. \<not> has_class ''c-article-byline__name'' t) (descendants jane_first_page)
   \<and> first_tag is_meta_author jane_first_page jane_doe_tag
   \<and> get jane_doe_tag ''content'' = Some ''Jane Doe''
   \<and> extract_author jane_first_page = ''Jane Doe''"
proof -
  have l: "list_all (\<lambda>t. \<not> has_class ''c-article-byline__name'' t) (descendants jane_first_page)"
    by code_simp
  then have h1: "\<forall>t \<in> set (descendants jane_first_page). \<not> has_class ''c-article-byline__name'' t"
    by (simp add: list_all_iff)
  have "find_tag is_meta_author jane_first_page = Some jane_doe_tag" by code_simp
  then have h2: "first_tag is_meta_author jane_first_page jane_doe_tag"
    by (simp add: find_tag_first_iff)
  have h3: "get jane_doe_tag ''content'' = Some ''Jane Doe''" by code_simp
  from author_from_meta_tag [OF h1 h2 h3] l h2 h3 show ?thesis by simp
qed

text \<open>
  Claim C7, as amended. On a document with no \<open>div\<close> of the class \<open>c-article-content\<close>
  and no \<open>div\<close> of the class \<open>c-article__body\<close>, whose first \<open>article\<close> element, in
  document order, has exactly two \<open>p\<close> tags below it (at any depth), with the stripped
  texts \<^verbatim>\<open>A.\<close> and \<^verbatim>\<open>B.\<close> in this order, the extracted content is \<^verbatim>\<open>A.\<close>, one line
  feed, \<^verbatim>\<open>B.\<close>.
\<close>

theorem content_from_generic_article:
  assumes "\<forall>t \<in> set (descendants article_soup). \<not> is_content_div (tag_name t) (tag_class t)"
    and "\<forall>t \<in> set (descendants article_soup). \<not> is_article_body t"
    and "first_tag is_article article_soup a"
    and "find_all is_p (tag_contents a) = [p1, p2]"
    and "get_text p1 = ''A.''" "get_text p2 = ''B.''"
  shows "extract_content article_soup = ''A.'' @ [CHR 0x0A] @ ''B.''"
proof -
  note sel = select_content_paragraphs_none [OF assms(1)]
  from assms(2) have body: "find_tag is_article_body article_soup = None"
    by (simp add: find_tag_None_iff)
  from assms(3) have a: "find_tag is_article article_soup = Some a"
    by (simp add: find_tag_first_iff)
  have "join_paragraphs [p1, p2] = ''A.'' @ [CHR 0x0A] @ ''B.''"
    by (simp add: join_paragraphs_def assms(5,6))
  with sel body a assms(4) show ?thesis by (simp add: extract_content_def)
qed

text \<open>
  The claim as stated counts the \<open>p\<close> children of the \<open>article\<close>. Lines 192 to 196 join
  every \<open>p\<close> below it: the \<open>article\<close> of \<open>deeper_paragraph_page\<close> has exactly the two
  \<open>p\<close> children of the claim and a third paragraph inside a \<open>div\<close>, and the content has
  three lines.
\<close>

theorem deeper_paragraph_is_joined:
  "list_all (\<lambda>t. \<not> is_content_div (tag_name t) (tag_class t) \<and> \<not> is_article_body t)
      (descendants deeper_paragraph_page)
   \<and> filter is_article (descendants deeper_paragraph_page) = [deeper_article]
   \<and> filter is_p (tag_contents deeper_article) =
       [Tag ''p'' None [] [NavigableString ''A.''], Tag ''p'' None [] [NavigableString ''B.'']]
   \<and> extract_content deeper_paragraph_page = ''A.'' @ [CHR 0x0A] @ ''B.'' @ [CHR 0x0A] @ ''C.''
   \<and> extract_content deeper_paragraph_page \<noteq> ''A.'' @ [CHR 0x0A] @ ''B.''"
  by code_simp

theorem content_from_generic_article_witness:
  "list_all (\<lambda>t. \<not> is_content_div (tag_name t) (tag_class t) \<and> \<not> is_article_body t)
      (descendants spaced_article_page)
   \<and> first_tag is_article spaced_article_page spaced_article
   \<and> map get_text (find_all is_p (tag_contents spaced_article)) = [''A.'', ''B.'']
   \<and> extract_content spaced_article_page = ''A.'' @ [CHR 0x0A] @ ''B.''"
proof -
  let ?p1 = "Tag ''p'' None [] [NavigableString '' A. '']"
  let ?p2 = "Tag ''p'' (Some [''lead'']) []
      [Tag ''b'' None [] [NavigableString ''B.''], NavigableString [CHR 0x0A]]"
  have l: "list_all (\<lambda>t. \<not> is_content_div (tag_name t) (tag_class t) \<and> \<not> is_article_body t)
      (descendants spaced_article_page)"
    by code_simp
  then have h1: "\<forall>t \<in> set (descendants spaced_article_page).
        \<not> is_content_div (tag_name t) (tag_class t)"
    and h2: "\<forall>t \<in> set (descendants spaced_article_page). \<not> is_article_body t"
    by (simp_all add: list_all_iff)
  have "find_tag is_article spaced_article_page = Some spaced_article" by code_simp
  then have h3: "first_tag is_article spaced_article_page spaced_article"
    by (simp add: find_tag_first_iff)
  have h4: "find_all is_p (tag_contents spaced_article) = [?p1, ?p2]" by code_simp
  have h5: "get_text ?p1 = ''A.''" by code_simp
  have h6: "get_text ?p2 = ''B.''" by code_simp
  from content_from_generic_article [OF h1 h2 h3 h4 h5 h6] l h3 h4 h5 h6
  show ?thesis by simp
qed

text \<open>
  Claim C8. Let the links to process list the collected set, each link once. At every
  point of the article loop (after any number \<open>k\<close> of its iterations) the number of
  records is at most the number of collected links, and it is strictly less when the
  fetch of at least one collected link fails.
\<close>

theorem records_bounded_by_links:
  assumes "lists_the_set links_to_process links"
  shows "\<forall>k \<le> length links_to_process.
           length (article_data (extract_articles web (take k links_to_process))) \<le> card links
         \<and> ((\<exists>l \<in> links. fetch_fails (web l)) \<longrightarrow>
              length (article_data (extract_articles web (take k links_to_process))) < card links)"
proof (intro allI impI)
  fix k assume "k \<le> length links_to_process"
  let ?ok = "\<lambda>l. \<not> fetch_fails (web l)"
  from assms have card: "card links = length links_to_process" and set: "set links_to_process = links"
    by (auto simp: lists_the_set_def distinct_card)
  have "length (map url (article_data (extract_articles web (take k links_to_process)))) =
      length (filter ?ok (take k links_to_process))"
    by (simp only: extract_articles_def scrape_articles_urls) simp
  then have len: "length (article_data (extract_articles web (take k links_to_process))) =
      length (filter ?ok (take k links_to_process))" by simp
  have "filter ?ok links_to_process = filter ?ok (take k links_to_process) @ filter ?ok (drop k links_to_process)"
    by (metis append_take_drop_id filter_append)
  then have le: "length (filter ?ok (take k links_to_process)) \<le> length (filter ?ok links_to_process)"
    by simp
  have lt: "(\<exists>l \<in> links. fetch_fails (web l)) \<longrightarrow> length (filter ?ok links_to_process) < length links_to_process"
    using length_filter_less [of _ links_to_process ?ok] set by auto
  have "length (filter ?ok links_to_process) \<le> length links_to_process" by simp
  with le have le2: "length (filter ?ok (take k links_to_process)) \<le> length links_to_process"
    by (rule le_trans)
  from lt le have lt2: "(\<exists>l \<in> links. fetch_fails (web l)) \<longrightarrow>
      length (filter ?ok (take k links_to_process)) < length links_to_process"
    by (blast intro: le_less_trans)
  from le2 lt2
  show "length (article_data (extract_articles web (take k links_to_process))) \<le> card links
         \<and> ((\<exists>l \<in> links. fetch_fails (web l)) \<longrightarrow>
              length (article_data (extract_articles web (take k links_to_process))) < card links)"
    unfolding len card by blast
qed

theorem records_bounded_by_links_witness:
  "lists_the_set [missing_url, story_url] {missing_url, story_url}
   \<and> fetch_fails (example_web missing_url)
   \<and> length (article_data (extract_articles example_web (take 2 [missing_url, story_url])))
       < card {missing_url, story_url}
   \<and> length (article_data (extract_articles example_web [missing_url, story_url])) = 1"
proof -
  have h: "lists_the_set [missing_url, story_url] {missing_url, story_url}"
    by (simp add: lists_the_set_def missing_url_def story_url_def)
  have f: "fetch_fails (example_web missing_url)"
    by (simp add: example_web_def raise_for_status_def)
  from records_bounded_by_links [OF h, where web = example_web, THEN spec, of 2] f
  have "length (article_data (extract_articles example_web (take 2 [missing_url, story_url])))
       < card {missing_url, story_url}"
    by simp
  moreover have "length (article_data (extract_articles example_web [missing_url, story_url])) = 1"
    by code_simp
  ultimately show ?thesis using h f by simp
qed

text \<open>
  Claim C9 asks for the politeness delay after every article fetch, successful or not.
  The delay of line 214 is the last statement of the \<^verbatim>\<open>try\<close> block, and every handler
  continues with the next link: after a failed fetch the next request follows at once.
  Here the first URL answers 404 and the second 200.
\<close>

theorem no_delay_after_failed_fetch:
  "trace (extract_articles example_web [missing_url, story_url]) =
     [RequestsGet missing_url, RequestsGet story_url, Sleep article_request_delay]"
  by code_simp

text \<open>
  Claim C10. The author cascade gives the same author as the cascade without its third
  step, on every document: when the first step finds no element with the byline-name
  class in the whole document, the third finds none inside the byline container.
\<close>

theorem author_cascade_without_step_three: "extract_author article_soup = extract_author_three_steps article_soup"
proof (cases "find_tag (has_class ''c-article-byline__name'') article_soup")
  case (Some author_tag)
  then show ?thesis by (simp add: extract_author_def extract_author_three_steps_def)
next
  case None
  have "author_in_byline article_soup = author_link_in_byline article_soup"
  proof (cases "find_tag is_byline_div article_soup")
    case None
    then show ?thesis by (simp add: author_in_byline_def author_link_in_byline_def)
  next
    case (Some byline_div)
    from find_tag_Some [OF Some] have "byline_div \<in> set (descendants article_soup)" by simp
    from descendants_contents [OF this] \<open>find_tag (has_class ''c-article-byline__name'') article_soup = None\<close>
    have "\<forall>t \<in> set (descendants (tag_contents byline_div)). \<not> is_author_span t"
      by (auto simp: find_tag_None_iff is_author_span_def)
    then have "find_tag is_author_span (tag_contents byline_div) = None"
      by (simp add: find_tag_None_iff)
    with Some show ?thesis by (simp add: author_in_byline_def author_link_in_byline_def)
  qed
  with None show ?thesis
    by (simp add: extract_author_def extract_author_three_steps_def split: option.splits)
qed

theorem author_cascade_without_step_three_witness:
  "extract_author byline_page = extract_author_three_steps byline_page
   \<and> extract_author byline_page = ''Ann Author''"
proof -
  have "extract_author byline_page = ''Ann Author''" by code_simp
  with author_cascade_without_step_three [of byline_page] show ?thesis by simp
qed

end
